theory Spec2Isabelle
  imports Main "HOL-Library.Word" "HOL-Library.Signed_Division"
begin

unbundle bit_operations_syntax

section \<open>Data model\<close>

text \<open>
  The driver exists twice: \<^verbatim>\<open>drivers/tpu_driver.c\<close> and
  \<^verbatim>\<open>drivers/tpu_driver.cpp\<close>. Both are embedded; the C functions keep their
  names, the C++ members are written \<^verbatim>\<open>Class_member\<close>.

  A \<^verbatim>\<open>float\<close> enters the codec only through
  \<^verbatim>\<open>memcpy(&f32, &value, sizeof(float))\<close>, so a float is its IEEE-754 binary32
  bit pattern. \<^verbatim>\<open>uint8_t\<close>, \<^verbatim>\<open>uint16_t\<close> and \<^verbatim>\<open>uint32_t\<close> are words;
  \<^verbatim>\<open>+\<close> and \<^verbatim>\<open>-\<close> on them wrap as in C.
\<close>

type_synonym byte = "8 word"
type_synonym float = "32 word"

section \<open>Half-precision codec\<close>

subsection \<open>C: \<^verbatim>\<open>float_to_fp16\<close> and \<^verbatim>\<open>fp16_to_float\<close>\<close>

text \<open>
  The arithmetic is done in \<^verbatim>\<open>uint32_t\<close>; \<^verbatim>\<open>exp16\<close> is an \<^verbatim>\<open>int32_t\<close>, read
  with \<^const>\<open>sint\<close> where it is compared; the returned \<^verbatim>\<open>uint16_t\<close> is the
  truncation (\<^const>\<open>ucast\<close>) of the 32-bit expression.
\<close>

definition float_to_fp16 :: "float \<Rightarrow> 16 word" where
  "float_to_fp16 f32 =
     (let sign = drop_bit 31 f32 AND 0x1;
          exp32 = drop_bit 23 f32 AND 0xFF;
          mant32 = f32 AND 0x7FFFFF
      in if exp32 = 0xFF
         then ucast (push_bit 15 sign OR 0x7C00 OR (if mant32 \<noteq> 0 then 0x200 else 0))
         else if exp32 = 0 then ucast (push_bit 15 sign)
         else let exp16 = exp32 - 127 + 15
              in if sint exp16 \<le> 0 then ucast (push_bit 15 sign)
                 else if sint exp16 \<ge> 31 then ucast (push_bit 15 sign OR 0x7C00)
                 else let mant16 = (ucast (drop_bit 13 mant32) :: 16 word)
                      in ucast (push_bit 15 sign OR push_bit 10 exp16 OR ucast mant16))"

text \<open>The \<^verbatim>\<open>uint16_t\<close> argument is promoted to 32 bits before it is shifted.\<close>

definition fp16_to_float :: "16 word \<Rightarrow> float" where
  "fp16_to_float fp16 =
     (let sign = drop_bit 15 (ucast fp16 :: 32 word) AND 0x1;
          exp16 = drop_bit 10 (ucast fp16 :: 32 word) AND 0x1F;
          mant16 = (ucast fp16 :: 32 word) AND 0x3FF
      in if exp16 = 0x1F then push_bit 31 sign OR 0x7F800000 OR push_bit 13 mant16
         else if exp16 = 0 then push_bit 31 sign
         else let exp32 = exp16 - 15 + 127;
                  mant32 = push_bit 13 mant16
              in push_bit 31 sign OR push_bit 23 exp32 OR mant32)"

subsection \<open>C++: \<^verbatim>\<open>FP16::fromFloat\<close> and \<^verbatim>\<open>FP16::toFloat\<close>\<close>

definition FP16_fromFloat :: "float \<Rightarrow> 16 word" where
  "FP16_fromFloat f32 =
     (let sign = drop_bit 31 f32 AND 0x1;
          exp32 = drop_bit 23 f32 AND 0xFF;
          mant32 = f32 AND 0x7FFFFF
      in if exp32 = 0xFF
         then ucast (push_bit 15 sign OR 0x7C00 OR (if mant32 \<noteq> 0 then 0x200 else 0))
         else if exp32 = 0 then ucast (push_bit 15 sign)
         else let exp16 = exp32 - 127 + 15
              in if sint exp16 \<le> 0 then ucast (push_bit 15 sign)
                 else if sint exp16 \<ge> 31 then ucast (push_bit 15 sign OR 0x7C00)
                 else let mant16 = (ucast (drop_bit 13 mant32) :: 16 word)
                      in ucast (push_bit 15 sign OR push_bit 10 exp16 OR ucast mant16))"

definition FP16_toFloat :: "16 word \<Rightarrow> float" where
  "FP16_toFloat fp16 =
     (let sign = drop_bit 15 (ucast fp16 :: 32 word) AND 0x1;
          exp16 = drop_bit 10 (ucast fp16 :: 32 word) AND 0x1F;
          mant16 = (ucast fp16 :: 32 word) AND 0x3FF
      in if exp16 = 0x1F then push_bit 31 sign OR 0x7F800000 OR push_bit 13 mant16
         else if exp16 = 0 then push_bit 31 sign
         else let exp32 = exp16 - 15 + 127;
                  mant32 = push_bit 13 mant16
              in push_bit 31 sign OR push_bit 23 exp32 OR mant32)"


section \<open>Serial channel\<close>

text \<open>
  The device behind the serial line is the environment of the driver. A \<open>device\<close> fixes
  what every call of \<^verbatim>\<open>write(2)\<close> and \<^verbatim>\<open>read(2)\<close> on the port returns:
  \<^item> \<open>wr_ret dev k len\<close> is the return value of the \<open>k\<close>-th write on the port
    (counted from 0), asked to send \<open>len\<close> bytes: \<open>len\<close> on success, less on a short
    write, \<open>-1\<close> on an error;
  \<^item> \<open>rd_ret dev k\<close> is the return value of the \<open>k\<close>-th read and the byte it leaves
    in the buffer. Every read of the driver asks for one byte; the return value is
    \<open>1\<close>, or \<open>0\<close> when the line timed out, or \<open>-1\<close> on an error, and the byte
    counts only when it is \<open>1\<close>;
  \<^item> \<open>call_wall_us\<close> and \<open>call_cpu_us\<close> are the elapsed time and the processor
    time one such call takes, in microseconds.

  A \<open>port\<close> is the state the driver threads through its calls: \<open>tx\<close> is the log of
  the buffers handed to \<^verbatim>\<open>write\<close>, oldest first (entry \<open>k\<close> belongs to the
  \<open>k\<close>-th write), \<open>n_rd\<close> counts the reads, \<open>wall_us\<close> is the elapsed (steady)
  time and \<open>cpu_us\<close> the processor time the process has used. Console output
  (\<^verbatim>\<open>printf\<close>, \<^verbatim>\<open>std::cout\<close>) is not part of the model.
\<close>

record device =
  wr_ret :: "nat \<Rightarrow> nat \<Rightarrow> int"
  rd_ret :: "nat \<Rightarrow> int \<times> byte"
  call_wall_us :: int
  call_cpu_us :: int

record port =
  tx :: "byte list list"
  n_rd :: nat
  wall_us :: int
  cpu_us :: int

type_synonym matrix = "nat \<Rightarrow> nat \<Rightarrow> float"

abbreviation (input) CMD_WRITE_WEIGHT :: byte where "CMD_WRITE_WEIGHT \<equiv> 0x57"
abbreviation (input) CMD_WRITE_ACTIVATION :: byte where "CMD_WRITE_ACTIVATION \<equiv> 0x41"
abbreviation (input) CMD_START :: byte where "CMD_START \<equiv> 0x53"
abbreviation (input) CMD_READ_RESULT :: byte where "CMD_READ_RESULT \<equiv> 0x52"
abbreviation (input) CMD_STATUS :: byte where "CMD_STATUS \<equiv> 0x3F"

abbreviation (input) WEIGHT_BASE :: byte where "WEIGHT_BASE \<equiv> 0"
abbreviation (input) ACTIVATION_BASE :: byte where "ACTIVATION_BASE \<equiv> 128"
abbreviation (input) RESULT_BASE :: byte where "RESULT_BASE \<equiv> 192"

abbreviation (input) STATUS_BUSY :: byte where "STATUS_BUSY \<equiv> 0x01"
abbreviation (input) STATUS_DONE :: byte where "STATUS_DONE \<equiv> 0x02"

abbreviation (input) MATRIX_SIZE :: nat where "MATRIX_SIZE \<equiv> 8"

text \<open>
  \<^verbatim>\<open>CLOCKS_PER_SEC\<close> comes from \<^verbatim>\<open>time.h\<close>; POSIX fixes it at one million.
\<close>

abbreviation (input) CLOCKS_PER_SEC :: int where "CLOCKS_PER_SEC \<equiv> 1000000"

definition serial_write :: "device \<Rightarrow> byte list \<Rightarrow> port \<Rightarrow> int \<times> port" where
  "serial_write dev data s =
     (wr_ret dev (length (tx s)) (length data),
      s\<lparr>tx := tx s @ [data],
        wall_us := wall_us s + call_wall_us dev,
        cpu_us := cpu_us s + call_cpu_us dev\<rparr>)"

text \<open>\<^verbatim>\<open>serial_read\<close> is only ever called with \<^verbatim>\<open>len = 1\<close>.\<close>

definition serial_read :: "device \<Rightarrow> port \<Rightarrow> (int \<times> byte) \<times> port" where
  "serial_read dev s =
     (rd_ret dev (n_rd s),
      s\<lparr>n_rd := n_rd s + 1,
        wall_us := wall_us s + call_wall_us dev,
        cpu_us := cpu_us s + call_cpu_us dev\<rparr>)"

text \<open>
  The clocks. \<^verbatim>\<open>clock()\<close> is the processor time the program has used (ISO C), in
  ticks of \<^verbatim>\<open>1/CLOCKS_PER_SEC\<close> seconds; \<^verbatim>\<open>std::chrono::steady_clock\<close> is elapsed
  time. A process asleep in \<^verbatim>\<open>usleep\<close> or \<^verbatim>\<open>sleep_for\<close> lets elapsed time pass
  and uses no processor time.
\<close>

definition clock :: "port \<Rightarrow> int" where
  "clock s = cpu_us s"

definition usleep :: "int \<Rightarrow> port \<Rightarrow> port" where
  "usleep usec s = s\<lparr>wall_us := wall_us s + usec\<rparr>"

definition steady_clock_now :: "port \<Rightarrow> int" where
  "steady_clock_now s = wall_us s"

definition sleep_for_milliseconds :: "int \<Rightarrow> port \<Rightarrow> port" where
  "sleep_for_milliseconds ms s = s\<lparr>wall_us := wall_us s + 1000 * ms\<rparr>"

section \<open>The C driver\<close>

text \<open>
  A C function that returns \<^verbatim>\<open>0\<close> or \<^verbatim>\<open>-1\<close> returns that \<open>int\<close> here. A C
  function that also delivers a value through a pointer returns an option: \<open>Some v\<close>
  for \<^verbatim>\<open>return 0\<close> with \<open>v\<close> stored, \<open>None\<close> for \<^verbatim>\<open>return -1\<close> with the target
  untouched.
\<close>

definition tpu_write_byte :: "device \<Rightarrow> byte \<Rightarrow> byte \<Rightarrow> port \<Rightarrow> int \<times> port" where
  "tpu_write_byte dev addr data s =
     (let cmd_buf = [if addr < 128 then CMD_WRITE_WEIGHT else CMD_WRITE_ACTIVATION, addr, data]
      in case serial_write dev cmd_buf s of
           (n, s1) \<Rightarrow>
             if n \<noteq> 3 then (- 1, s1)
             else (case serial_read dev s1 of
                     ((m, ack), s2) \<Rightarrow>
                       if m \<noteq> 1 then (- 1, s2)
                       else (if ack = 0x4B then 0 else - 1, s2)))"

definition tpu_read_byte :: "device \<Rightarrow> byte \<Rightarrow> port \<Rightarrow> byte option \<times> port" where
  "tpu_read_byte dev addr s =
     (let cmd_buf = [CMD_READ_RESULT, addr]
      in case serial_write dev cmd_buf s of
           (n, s1) \<Rightarrow>
             if n \<noteq> 2 then (None, s1)
             else (case serial_read dev s1 of
                     ((m, data), s2) \<Rightarrow>
                       if m \<noteq> 1 then (None, s2) else (Some data, s2)))"

definition tpu_write_fp16 :: "device \<Rightarrow> byte \<Rightarrow> float \<Rightarrow> port \<Rightarrow> int \<times> port" where
  "tpu_write_fp16 dev addr v s =
     (if addr mod 2 \<noteq> 0 then (- 1, s)
      else let fp16 = float_to_fp16 v;
               low = (ucast (fp16 AND 0xFF) :: byte);
               high = (ucast (drop_bit 8 fp16 AND 0xFF) :: byte)
           in case tpu_write_byte dev addr low s of
                (r1, s1) \<Rightarrow>
                  if r1 \<noteq> 0 then (- 1, s1)
                  else (case tpu_write_byte dev (addr + 1) high s1 of
                          (r2, s2) \<Rightarrow> if r2 \<noteq> 0 then (- 1, s2) else (0, s2)))"

definition tpu_read_fp16 :: "device \<Rightarrow> byte \<Rightarrow> port \<Rightarrow> float option \<times> port" where
  "tpu_read_fp16 dev addr s =
     (if addr mod 2 \<noteq> 0 then (None, s)
      else case tpu_read_byte dev addr s of
             (None, s1) \<Rightarrow> (None, s1)
           | (Some low, s1) \<Rightarrow>
               (case tpu_read_byte dev (addr + 1) s1 of
                  (None, s2) \<Rightarrow> (None, s2)
                | (Some high, s2) \<Rightarrow>
                    (let fp16 = push_bit 8 (ucast high :: 16 word) OR ucast low
                     in (Some (fp16_to_float fp16), s2))))"

text \<open>
  The matrix loops. A \<^verbatim>\<open>float[8][8]\<close> is read as a function of its two indices; the
  loops only touch indices below \<^verbatim>\<open>MATRIX_SIZE\<close>. The inner loop returns the address
  it has reached, since \<^verbatim>\<open>addr\<close> lives across both loops; \<^verbatim>\<open>addr += 2\<close> is
  \<^verbatim>\<open>uint8_t\<close> arithmetic.
\<close>

function tpu_write_activations_j ::
  "device \<Rightarrow> matrix \<Rightarrow> nat \<Rightarrow> nat \<Rightarrow> byte \<Rightarrow> port \<Rightarrow> int \<times> byte \<times> port" where
  "tpu_write_activations_j dev activations i j addr s =
     (if j < MATRIX_SIZE
      then (case tpu_write_fp16 dev addr (activations i j) s of
              (r, s1) \<Rightarrow>
                if r \<noteq> 0 then (- 1, addr, s1)
                else tpu_write_activations_j dev activations i (j + 1) (addr + 2) s1)
      else (0, addr, s))"
  by pat_completeness auto
termination
  by (relation "measure (\<lambda>(dev, activations, i, j, addr, s). MATRIX_SIZE - j)") auto

function tpu_write_activations_i ::
  "device \<Rightarrow> matrix \<Rightarrow> nat \<Rightarrow> byte \<Rightarrow> port \<Rightarrow> int \<times> port" where
  "tpu_write_activations_i dev activations i addr s =
     (if i < MATRIX_SIZE
      then (case tpu_write_activations_j dev activations i 0 addr s of
              (r, addr1, s1) \<Rightarrow>
                if r \<noteq> 0 then (- 1, s1)
                else tpu_write_activations_i dev activations (i + 1) addr1 s1)
      else (0, s))"
  by pat_completeness auto
termination
  by (relation "measure (\<lambda>(dev, activations, i, addr, s). MATRIX_SIZE - i)") auto

definition tpu_write_activations :: "device \<Rightarrow> matrix \<Rightarrow> port \<Rightarrow> int \<times> port" where
  "tpu_write_activations dev activations s =
     tpu_write_activations_i dev activations 0 ACTIVATION_BASE s"

text \<open>
  \<^verbatim>\<open>tpu_read_results\<close> fills the caller's \<^verbatim>\<open>results\<close> as it goes, so the elements
  read before a failure stay written.
\<close>

function tpu_read_results_j ::
  "device \<Rightarrow> nat \<Rightarrow> nat \<Rightarrow> byte \<Rightarrow> matrix \<Rightarrow> port \<Rightarrow> int \<times> byte \<times> matrix \<times> port" where
  "tpu_read_results_j dev i j addr results s =
     (if j < MATRIX_SIZE
      then (case tpu_read_fp16 dev addr s of
              (None, s1) \<Rightarrow> (- 1, addr, results, s1)
            | (Some v, s1) \<Rightarrow>
                tpu_read_results_j dev i (j + 1) (addr + 2)
                  (results(i := (results i)(j := v))) s1)
      else (0, addr, results, s))"
  by pat_completeness auto
termination
  by (relation "measure (\<lambda>(dev, i, j, addr, results, s). MATRIX_SIZE - j)") auto

function tpu_read_results_i ::
  "device \<Rightarrow> nat \<Rightarrow> byte \<Rightarrow> matrix \<Rightarrow> port \<Rightarrow> int \<times> matrix \<times> port" where
  "tpu_read_results_i dev i addr results s =
     (if i < MATRIX_SIZE
      then (case tpu_read_results_j dev i 0 addr results s of
              (r, addr1, results1, s1) \<Rightarrow>
                if r \<noteq> 0 then (- 1, results1, s1)
                else tpu_read_results_i dev (i + 1) addr1 results1 s1)
      else (0, results, s))"
  by pat_completeness auto
termination
  by (relation "measure (\<lambda>(dev, i, addr, results, s). MATRIX_SIZE - i)") auto

definition tpu_read_results :: "device \<Rightarrow> matrix \<Rightarrow> port \<Rightarrow> int \<times> matrix \<times> port" where
  "tpu_read_results dev results s = tpu_read_results_i dev 0 RESULT_BASE results s"

definition tpu_start :: "device \<Rightarrow> port \<Rightarrow> int \<times> port" where
  "tpu_start dev s =
     (case serial_write dev [CMD_START] s of
        (n, s1) \<Rightarrow>
          if n \<noteq> 1 then (- 1, s1)
          else (case serial_read dev s1 of
                  ((m, ack), s2) \<Rightarrow>
                    if m \<noteq> 1 then (- 1, s2)
                    else (if ack = 0x4B then 0 else - 1, s2)))"

record TPUStatus =
  status_busy :: byte
  status_done :: byte

definition tpu_get_status :: "device \<Rightarrow> port \<Rightarrow> TPUStatus option \<times> port" where
  "tpu_get_status dev s =
     (case serial_write dev [CMD_STATUS] s of
        (n, s1) \<Rightarrow>
          if n \<noteq> 1 then (None, s1)
          else (case serial_read dev s1 of
                  ((m, status_byte), s2) \<Rightarrow>
                    if m \<noteq> 1 then (None, s2)
                    else (Some \<lparr>status_busy = (if status_byte AND STATUS_BUSY \<noteq> 0 then 1 else 0),
                                status_done = (if status_byte AND STATUS_DONE \<noteq> 0 then 1 else 0)\<rparr>,
                          s2)))"

text \<open>
  \<^verbatim>\<open>while (1)\<close> has no bound of its own, so the loop is a partial function: \<open>None\<close>
  is a run that never returns. \<^verbatim>\<open>clock_t\<close> is a 64-bit \<^verbatim>\<open>long\<close> here, read as an
  unbounded integer; C's \<^verbatim>\<open>/\<close> truncates towards zero, which is \<open>sdiv\<close>.
\<close>

partial_function (option) tpu_wait_until_done_loop ::
  "device \<Rightarrow> int \<Rightarrow> int \<Rightarrow> port \<Rightarrow> (int \<times> port) option" where
  "tpu_wait_until_done_loop dev timeout_ms start s =
     (case tpu_get_status dev s of
        (None, s1) \<Rightarrow> Some (- 1, s1)
      | (Some status, s1) \<Rightarrow>
          if status_done status \<noteq> 0 then Some (0, s1)
          else let now = clock s1
               in if ((now - start) * 1000) sdiv CLOCKS_PER_SEC > timeout_ms
                  then Some (- 1, s1)
                  else tpu_wait_until_done_loop dev timeout_ms start (usleep 10000 s1))"

declare tpu_wait_until_done_loop.simps [code]

definition tpu_wait_until_done :: "device \<Rightarrow> int \<Rightarrow> port \<Rightarrow> (int \<times> port) option" where
  "tpu_wait_until_done dev timeout_ms s =
     (let start = clock s in tpu_wait_until_done_loop dev timeout_ms start s)"


section \<open>The C++ driver\<close>

text \<open>
  A C++ member that can throw returns \<open>Inl\<close> of the exception or \<open>Inr\<close> of its
  value. The two exception classes the driver throws are kept apart, with their
  messages.
\<close>

datatype exn = runtime_error string | invalid_argument string

definition SerialPort_write :: "device \<Rightarrow> byte list \<Rightarrow> port \<Rightarrow> (exn + nat) \<times> port" where
  "SerialPort_write dev data s =
     (case serial_write dev data s of
        (n, s1) \<Rightarrow>
          if n < 0 then (Inl (runtime_error ''Write failed''), s1) else (Inr (nat n), s1))"

definition SerialPort_read :: "device \<Rightarrow> port \<Rightarrow> (exn + nat \<times> byte) \<times> port" where
  "SerialPort_read dev s =
     (case serial_read dev s of
        ((n, b), s1) \<Rightarrow>
          if n < 0 then (Inl (runtime_error ''Read failed''), s1) else (Inr (nat n, b), s1))"

text \<open>\<^verbatim>\<open>writeByte\<close> does not look at the count \<^verbatim>\<open>serial_.write\<close> returns.\<close>

definition TPUDriver_writeByte :: "device \<Rightarrow> byte \<Rightarrow> byte \<Rightarrow> port \<Rightarrow> (exn + unit) \<times> port" where
  "TPUDriver_writeByte dev addr data s =
     (let cmd = (if addr < 128 then CMD_WRITE_WEIGHT else CMD_WRITE_ACTIVATION);
          buffer = [cmd, addr, data]
      in case SerialPort_write dev buffer s of
           (Inl e, s1) \<Rightarrow> (Inl e, s1)
         | (Inr _, s1) \<Rightarrow>
             (case SerialPort_read dev s1 of
                (Inl e, s2) \<Rightarrow> (Inl e, s2)
              | (Inr (m, ack), s2) \<Rightarrow>
                  if m \<noteq> 1 \<or> ack \<noteq> 0x4B
                  then (Inl (runtime_error ''Failed to receive ACK''), s2)
                  else (Inr (), s2)))"

definition TPUDriver_readByte :: "device \<Rightarrow> byte \<Rightarrow> port \<Rightarrow> (exn + byte) \<times> port" where
  "TPUDriver_readByte dev addr s =
     (let buffer = [CMD_READ_RESULT, addr]
      in case SerialPort_write dev buffer s of
           (Inl e, s1) \<Rightarrow> (Inl e, s1)
         | (Inr _, s1) \<Rightarrow>
             (case SerialPort_read dev s1 of
                (Inl e, s2) \<Rightarrow> (Inl e, s2)
              | (Inr (m, data), s2) \<Rightarrow>
                  if m \<noteq> 1 then (Inl (runtime_error ''Failed to read data''), s2)
                  else (Inr data, s2)))"

definition TPUDriver_writeFP16 :: "device \<Rightarrow> byte \<Rightarrow> float \<Rightarrow> port \<Rightarrow> (exn + unit) \<times> port" where
  "TPUDriver_writeFP16 dev addr v s =
     (if addr mod 2 \<noteq> 0 then (Inl (invalid_argument ''FP16 address must be even''), s)
      else let fp16 = FP16_fromFloat v
           in case TPUDriver_writeByte dev addr (ucast (fp16 AND 0xFF)) s of
                (Inl e, s1) \<Rightarrow> (Inl e, s1)
              | (Inr _, s1) \<Rightarrow>
                  TPUDriver_writeByte dev (addr + 1) (ucast (drop_bit 8 fp16 AND 0xFF)) s1)"

definition TPUDriver_readFP16 :: "device \<Rightarrow> byte \<Rightarrow> port \<Rightarrow> (exn + float) \<times> port" where
  "TPUDriver_readFP16 dev addr s =
     (if addr mod 2 \<noteq> 0 then (Inl (invalid_argument ''FP16 address must be even''), s)
      else case TPUDriver_readByte dev addr s of
             (Inl e, s1) \<Rightarrow> (Inl e, s1)
           | (Inr low, s1) \<Rightarrow>
               (case TPUDriver_readByte dev (addr + 1) s1 of
                  (Inl e, s2) \<Rightarrow> (Inl e, s2)
                | (Inr high, s2) \<Rightarrow>
                    (let fp16 = push_bit 8 (ucast high :: 16 word) OR ucast low
                     in (Inr (FP16_toFloat fp16), s2))))"

function TPUDriver_writeActivations_j ::
  "device \<Rightarrow> matrix \<Rightarrow> nat \<Rightarrow> nat \<Rightarrow> byte \<Rightarrow> port \<Rightarrow> (exn + byte) \<times> port" where
  "TPUDriver_writeActivations_j dev activations i j addr s =
     (if j < MATRIX_SIZE
      then (case TPUDriver_writeFP16 dev addr (activations i j) s of
              (Inl e, s1) \<Rightarrow> (Inl e, s1)
            | (Inr _, s1) \<Rightarrow>
                TPUDriver_writeActivations_j dev activations i (j + 1) (addr + 2) s1)
      else (Inr addr, s))"
  by pat_completeness auto
termination
  by (relation "measure (\<lambda>(dev, activations, i, j, addr, s). MATRIX_SIZE - j)") auto

function TPUDriver_writeActivations_i ::
  "device \<Rightarrow> matrix \<Rightarrow> nat \<Rightarrow> byte \<Rightarrow> port \<Rightarrow> (exn + unit) \<times> port" where
  "TPUDriver_writeActivations_i dev activations i addr s =
     (if i < MATRIX_SIZE
      then (case TPUDriver_writeActivations_j dev activations i 0 addr s of
              (Inl e, s1) \<Rightarrow> (Inl e, s1)
            | (Inr addr1, s1) \<Rightarrow>
                TPUDriver_writeActivations_i dev activations (i + 1) addr1 s1)
      else (Inr (), s))"
  by pat_completeness auto
termination
  by (relation "measure (\<lambda>(dev, activations, i, addr, s). MATRIX_SIZE - i)") auto

definition TPUDriver_writeActivations ::
  "device \<Rightarrow> matrix \<Rightarrow> port \<Rightarrow> (exn + unit) \<times> port" where
  "TPUDriver_writeActivations dev activations s =
     TPUDriver_writeActivations_i dev activations 0 ACTIVATION_BASE s"

function TPUDriver_readResults_j ::
  "device \<Rightarrow> nat \<Rightarrow> nat \<Rightarrow> byte \<Rightarrow> matrix \<Rightarrow> port \<Rightarrow> (exn + byte \<times> matrix) \<times> port" where
  "TPUDriver_readResults_j dev i j addr results s =
     (if j < MATRIX_SIZE
      then (case TPUDriver_readFP16 dev addr s of
              (Inl e, s1) \<Rightarrow> (Inl e, s1)
            | (Inr v, s1) \<Rightarrow>
                TPUDriver_readResults_j dev i (j + 1) (addr + 2)
                  (results(i := (results i)(j := v))) s1)
      else (Inr (addr, results), s))"
  by pat_completeness auto
termination
  by (relation "measure (\<lambda>(dev, i, j, addr, results, s). MATRIX_SIZE - j)") auto

function TPUDriver_readResults_i ::
  "device \<Rightarrow> nat \<Rightarrow> byte \<Rightarrow> matrix \<Rightarrow> port \<Rightarrow> (exn + matrix) \<times> port" where
  "TPUDriver_readResults_i dev i addr results s =
     (if i < MATRIX_SIZE
      then (case TPUDriver_readResults_j dev i 0 addr results s of
              (Inl e, s1) \<Rightarrow> (Inl e, s1)
            | (Inr (addr1, results1), s1) \<Rightarrow>
                TPUDriver_readResults_i dev (i + 1) addr1 results1 s1)
      else (Inr results, s))"
  by pat_completeness auto
termination
  by (relation "measure (\<lambda>(dev, i, addr, results, s). MATRIX_SIZE - i)") auto

text \<open>
  The local \<^verbatim>\<open>Matrix results\<close> starts out unset; every element is assigned before
  the function returns, so the model starts from the zero matrix.
\<close>

definition TPUDriver_readResults :: "device \<Rightarrow> port \<Rightarrow> (exn + matrix) \<times> port" where
  "TPUDriver_readResults dev s = TPUDriver_readResults_i dev 0 RESULT_BASE (\<lambda>i j. 0) s"

definition TPUDriver_start :: "device \<Rightarrow> port \<Rightarrow> (exn + unit) \<times> port" where
  "TPUDriver_start dev s =
     (case SerialPort_write dev [CMD_START] s of
        (Inl e, s1) \<Rightarrow> (Inl e, s1)
      | (Inr _, s1) \<Rightarrow>
          (case SerialPort_read dev s1 of
             (Inl e, s2) \<Rightarrow> (Inl e, s2)
           | (Inr (m, ack), s2) \<Rightarrow>
               if m \<noteq> 1 \<or> ack \<noteq> 0x4B
               then (Inl (runtime_error ''Failed to start TPU''), s2)
               else (Inr (), s2)))"

record TPUStatus_cpp =
  cpp_busy :: bool
  cpp_done :: bool

definition TPUDriver_getStatus :: "device \<Rightarrow> port \<Rightarrow> (exn + TPUStatus_cpp) \<times> port" where
  "TPUDriver_getStatus dev s =
     (case SerialPort_write dev [CMD_STATUS] s of
        (Inl e, s1) \<Rightarrow> (Inl e, s1)
      | (Inr _, s1) \<Rightarrow>
          (case SerialPort_read dev s1 of
             (Inl e, s2) \<Rightarrow> (Inl e, s2)
           | (Inr (m, status_byte), s2) \<Rightarrow>
               if m \<noteq> 1 then (Inl (runtime_error ''Failed to read status''), s2)
               else (Inr \<lparr>cpp_busy = (status_byte AND 0x01 \<noteq> 0),
                           cpp_done = (status_byte AND 0x02 \<noteq> 0)\<rparr>, s2)))"

text \<open>
  \<^verbatim>\<open>duration_cast<milliseconds>\<close> truncates the elapsed microseconds towards zero.
\<close>

partial_function (option) TPUDriver_waitUntilDone_loop ::
  "device \<Rightarrow> int \<Rightarrow> int \<Rightarrow> port \<Rightarrow> ((exn + unit) \<times> port) option" where
  "TPUDriver_waitUntilDone_loop dev timeout_ms start s =
     (case TPUDriver_getStatus dev s of
        (Inl e, s1) \<Rightarrow> Some (Inl e, s1)
      | (Inr status, s1) \<Rightarrow>
          if cpp_done status then Some (Inr (), s1)
          else let now = steady_clock_now s1;
                   elapsed = (now - start) sdiv 1000
               in if elapsed > timeout_ms
                  then Some (Inl (runtime_error ''Timeout waiting for TPU''), s1)
                  else TPUDriver_waitUntilDone_loop dev timeout_ms start
                         (sleep_for_milliseconds 10 s1))"

declare TPUDriver_waitUntilDone_loop.simps [code]

definition TPUDriver_waitUntilDone ::
  "device \<Rightarrow> int \<Rightarrow> port \<Rightarrow> ((exn + unit) \<times> port) option" where
  "TPUDriver_waitUntilDone dev timeout_ms s =
     (let start = steady_clock_now s in TPUDriver_waitUntilDone_loop dev timeout_ms start s)"


section \<open>Notation for the theorems\<close>

text \<open>
  The loops are unfolded by hand, one iteration at a time, so their equations are
  taken out of the simplifier. \<open>halves low high\<close> is the 16-bit value
  \<^verbatim>\<open>((uint16_t)high << 8) | low\<close> that two answer bytes make.
\<close>

declare tpu_read_results_j.simps [simp del] tpu_read_results_i.simps [simp del]
  tpu_write_activations_j.simps [simp del] tpu_write_activations_i.simps [simp del]
  TPUDriver_readResults_j.simps [simp del] TPUDriver_readResults_i.simps [simp del]
  TPUDriver_writeActivations_j.simps [simp del] TPUDriver_writeActivations_i.simps [simp del]

abbreviation (input) halves :: "byte \<Rightarrow> byte \<Rightarrow> 16 word" where
  "halves low high \<equiv> push_bit 8 (ucast high :: 16 word) OR ucast low"

section \<open>Concrete devices\<close>

text \<open>
  The devices the examples run on. \<open>responder b\<close> takes every write in full and
  answers every read with the one byte \<open>b\<close>; a serial call on it takes 100
  microseconds, 50 of them on the processor. \<open>port0\<close> is a freshly opened port.
\<close>

definition responder :: "byte \<Rightarrow> device" where
  "responder b =
     \<lparr>wr_ret = (\<lambda>k len. int len), rd_ret = (\<lambda>k. (1, b)),
      call_wall_us = 100, call_cpu_us = 50\<rparr>"

definition port0 :: port where
  "port0 = \<lparr>tx = [], n_rd = 0, wall_us = 0, cpu_us = 0\<rparr>"

section \<open>The codec: bit-level lemmas\<close>

lemma field_masks:
  "(0xFF::32 word) = mask 8" "(0x7FFFFF::32 word) = mask 23"
  "(0x1F::32 word) = mask 5" "(0x3FF::32 word) = mask 10"
  "(0xFFFFE000 :: 32 word) = NOT (mask 13)" "(0x1FFF :: 32 word) = mask 13"
  "(0x7FFFFFFF :: 32 word) = mask 31" "(0x7F800000 :: 32 word) = push_bit 23 (mask 8)"
  by (simp_all add: mask_eq_exp_minus_1)

lemma and_one_mask: "(y :: 32 word) AND 0x1 = y AND mask 1"
  by simp

lemma signed_take_bit_31_id:
  "- 2147483648 \<le> k \<Longrightarrow> k < 2147483648 \<Longrightarrow> signed_take_bit 31 (k::int) = k"
  by (rule signed_take_bit_int_eq_self) simp_all

lemma sint_rebias:
  fixes e :: "32 word"
  assumes "e \<le> 0xFF"
  shows "sint (e - 127 + 15) = uint e - 112"
proof -
  have u: "uint e \<le> 255" using assms by (simp add: word_le_def)
  have u0: "0 \<le> uint e" by simp
  have "signed_take_bit 31 (uint e) = uint e"
    by (rule signed_take_bit_31_id) (use u u0 in linarith)+
  then have se: "sint e = uint e"
    by (simp add: sint_uint)
  have "e - 127 + 15 = e - 112" by simp
  then have "sint (e - 127 + 15) = signed_take_bit 31 (sint e - sint (112 :: 32 word))"
    by (simp add: sint_word_ariths)
  also have "\<dots> = signed_take_bit 31 (uint e - 112)" by (simp add: se)
  also have "\<dots> = uint e - 112"
    by (rule signed_take_bit_31_id) (use u u0 in linarith)+
  finally show ?thesis .
qed

lemma exp32_le: "drop_bit 23 (x::32 word) AND 0xFF \<le> 0xFF"
  by (rule word_and_le1)

lemma repack:
  "push_bit 31 (drop_bit 31 x AND 0x1) OR push_bit 23 (drop_bit 23 x AND 0xFF)
     OR push_bit 13 (drop_bit 13 (x AND 0x7FFFFF)) = (x :: 32 word) AND 0xFFFFE000"
proof (rule bit_eqI)
  fix n
  assume "possible_bit TYPE(32 word) n"
  then have n: "n < 32" by simp
  consider "n < 13" | "13 \<le> n" "n < 23" | "23 \<le> n" "n < 31" | "n = 31"
    using n by linarith
  then show "bit (push_bit 31 (drop_bit 31 x AND 0x1) OR push_bit 23 (drop_bit 23 x AND 0xFF)
     OR push_bit 13 (drop_bit 13 (x AND 0x7FFFFF))) n = bit (x AND 0xFFFFE000) n"
    unfolding and_one_mask field_masks
    by cases (auto simp add: bit_simps)
qed

lemma bit_lt_32:
  fixes y :: "32 word"
  assumes "y < 32" "bit y n"
  shows "n < 5"
proof -
  have "y < 2 ^ 5" using assms(1) by simp
  then have "y AND mask 5 = y" by (rule less_mask_eq)
  then have "bit (y AND mask 5) n" using assms(2) by simp
  then show ?thesis by (simp add: bit_simps)
qed

lemma unpack_sign:
  fixes y :: "32 word" and x :: "32 word"
  assumes "y < 32"
  shows "drop_bit 15 (ucast (ucast (push_bit 15 (s AND 0x1) OR push_bit 10 y OR
      ucast (ucast (drop_bit 13 (x AND 0x7FFFFF)) :: 16 word)) :: 16 word) :: 32 word) AND 0x1 = s AND 0x1"
  unfolding and_one_mask field_masks
  by (rule bit_eqI) (auto simp add: bit_simps dest: bit_lt_32[OF assms])

lemma unpack_exp:
  fixes y :: "32 word" and x :: "32 word"
  assumes "y < 32"
  shows "drop_bit 10 (ucast (ucast (push_bit 15 (s AND 0x1) OR push_bit 10 y OR
      ucast (ucast (drop_bit 13 (x AND 0x7FFFFF)) :: 16 word)) :: 16 word) :: 32 word) AND 0x1F = y"
  unfolding and_one_mask field_masks
  by (rule bit_eqI) (auto simp add: bit_simps dest: bit_lt_32[OF assms])

lemma unpack_mant:
  fixes y :: "32 word" and x :: "32 word"
  assumes "y < 32"
  shows "(ucast (ucast (push_bit 15 (s AND 0x1) OR push_bit 10 y OR
      ucast (ucast (drop_bit 13 (x AND 0x7FFFFF)) :: 16 word)) :: 16 word) :: 32 word) AND 0x3FF
     = drop_bit 13 (x AND 0x7FFFFF)"
  unfolding and_one_mask field_masks
  by (rule bit_eqI) (auto simp add: bit_simps dest: bit_lt_32[OF assms])

lemma float_to_fp16_normal:
  fixes x :: float
  assumes lo: "113 \<le> drop_bit 23 x AND 0xFF" and hi: "drop_bit 23 x AND 0xFF \<le> 142"
  shows "float_to_fp16 x =
     ucast (push_bit 15 (drop_bit 31 x AND 0x1) OR push_bit 10 ((drop_bit 23 x AND 0xFF) - 127 + 15) OR
      ucast (ucast (drop_bit 13 (x AND 0x7FFFFF)) :: 16 word))"
proof -
  define e where "e = drop_bit 23 x AND 0xFF"
  have e: "113 \<le> e" "e \<le> 142" using lo hi by (simp_all add: e_def)
  have ne: "e \<noteq> 0xFF" "e \<noteq> 0" using e by auto
  have "e \<le> 0xFF" unfolding e_def by (rule exp32_le)
  then have s: "sint (e - 127 + 15) = uint e - 112" by (rule sint_rebias)
  have u: "113 \<le> uint e" "uint e \<le> 142" using e by (simp_all add: word_le_def)
  have "\<not> sint (e - 127 + 15) \<le> 0" "\<not> 31 \<le> sint (e - 127 + 15)"
    using s u by linarith+
  then show ?thesis
    using ne unfolding float_to_fp16_def e_def[symmetric] Let_def by simp
qed

lemma rebias_range:
  fixes e :: "32 word"
  assumes "113 \<le> e" "e \<le> 142"
  shows "e - 127 + 15 < 32" "e - 127 + 15 \<noteq> 0" "e - 127 + 15 \<noteq> 0x1F" "e - 127 + 15 - 15 + 127 = e"
  using assms by unat_arith+

lemma roundtrip_bits:
  fixes x :: float
  assumes lo: "113 \<le> drop_bit 23 x AND 0xFF" and hi: "drop_bit 23 x AND 0xFF \<le> 142"
  shows "fp16_to_float (float_to_fp16 x) = x AND 0xFFFFE000"
proof -
  define e where "e = drop_bit 23 x AND 0xFF"
  define y where "y = e - 127 + 15"
  have e: "113 \<le> e" "e \<le> 142" using lo hi by (simp_all add: e_def)
  have y: "y < 32" "y \<noteq> 0" "y \<noteq> 0x1F" "y - 15 + 127 = e"
    unfolding y_def using rebias_range[OF e] by simp_all
  have h: "float_to_fp16 x = ucast (push_bit 15 (drop_bit 31 x AND 0x1) OR push_bit 10 y OR
      ucast (ucast (drop_bit 13 (x AND 0x7FFFFF)) :: 16 word))"
    unfolding y_def e_def by (rule float_to_fp16_normal[OF lo hi])
  have "fp16_to_float (float_to_fp16 x) =
      push_bit 31 (drop_bit 31 x AND 0x1) OR push_bit 23 e OR push_bit 13 (drop_bit 13 (x AND 0x7FFFFF))"
    unfolding fp16_to_float_def h Let_def unpack_sign[OF y(1)] unpack_exp[OF y(1)] unpack_mant[OF y(1)]
    using y by simp
  then show ?thesis unfolding e_def by (simp only: repack)
qed

lemma fp16_to_float_low_bits: "fp16_to_float h AND 0x1FFF = 0"
  unfolding fp16_to_float_def Let_def field_masks
  by (rule bit_eqI) (auto simp add: bit_simps)

lemma drop_exp_trunc: "drop_bit 23 ((x :: 32 word) AND 0xFFFFE000) = drop_bit 23 x"
  unfolding field_masks
  by (rule bit_eqI) (auto simp add: bit_simps dest: bit_imp_le_length)

lemma trunc_error: "(x :: 32 word) - (x AND 0xFFFFE000) = x AND 0x1FFF"
proof -
  have "x - (x AND NOT (mask 13)) = x AND NOT (x AND NOT (mask 13))"
    by (rule disjunctive_diff) (simp add: bit_simps)
  also have "\<dots> = x AND mask 13"
    by (rule bit_eqI) (auto simp add: bit_simps)
  finally show ?thesis by (simp only: field_masks)
qed

lemma low_bits_less: "(x :: 32 word) AND 0x1FFF < 0x2000"
proof -
  have "x AND mask 13 < 2 ^ 13" by (rule and_mask_less') simp
  then show ?thesis by (simp add: field_masks)
qed

lemma trunc_exact: "(x :: 32 word) AND 0x1FFF = 0 \<Longrightarrow> x AND 0xFFFFE000 = x"
  unfolding field_masks
proof (rule bit_eqI)
  fix n
  assume z: "x AND mask 13 = 0"
  have "\<not> bit (x AND mask 13) n" unfolding z by simp
  then show "bit (x AND NOT (mask 13)) n = bit x n"
    by (auto simp add: bit_simps dest: bit_imp_le_length)
qed

text \<open>
  Claim C4. Let \<open>x\<close> be a normal 32-bit float whose value lies in the normal range of
  half precision: its exponent field lies between 113 and 142, so that the rebiased
  exponent lies between 1 and 30. Then decoding the encoding of \<open>x\<close> gives \<open>x\<close>
  with the low 13 mantissa bits cleared. Sign and exponent (the bits from 23 up) are
  kept; the result is not above \<open>x\<close> as a bit pattern and differs from it by less
  than \<open>0x2000\<close>, which is one unit of the last bit of the 10-bit mantissa as it sits
  in the 32-bit pattern. A value that half precision holds exactly (its low 13 bits are
  zero; every value the decoder can produce is one) comes back unchanged.
\<close>

theorem fp16_roundtrip_normal:
  fixes x :: float
  assumes "113 \<le> drop_bit 23 x AND 0xFF" and "drop_bit 23 x AND 0xFF \<le> 142"
  shows "fp16_to_float (float_to_fp16 x) = x AND 0xFFFFE000
       \<and> drop_bit 23 (fp16_to_float (float_to_fp16 x)) = drop_bit 23 x
       \<and> fp16_to_float (float_to_fp16 x) \<le> x
       \<and> x - fp16_to_float (float_to_fp16 x) < 0x2000
       \<and> (x AND 0x1FFF = 0 \<longrightarrow> fp16_to_float (float_to_fp16 x) = x)
       \<and> (\<forall>h. fp16_to_float h = x \<longrightarrow> fp16_to_float (float_to_fp16 x) = x)"
proof -
  have rt: "fp16_to_float (float_to_fp16 x) = x AND 0xFFFFE000"
    using assms by (rule roundtrip_bits)
  have exact: "fp16_to_float (float_to_fp16 x) = x" if "x AND 0x1FFF = 0"
    unfolding rt using that by (rule trunc_exact)
  have img: "fp16_to_float (float_to_fp16 x) = x" if "fp16_to_float h = x" for h
  proof -
    have "x AND 0x1FFF = 0" unfolding that[symmetric] by (rule fp16_to_float_low_bits)
    then show ?thesis by (rule exact)
  qed
  have "x - fp16_to_float (float_to_fp16 x) < 0x2000"
    unfolding rt trunc_error by (rule low_bits_less)
  moreover have "fp16_to_float (float_to_fp16 x) \<le> x"
    unfolding rt by (rule word_and_le2)
  moreover have "drop_bit 23 (fp16_to_float (float_to_fp16 x)) = drop_bit 23 x"
    unfolding rt by (rule drop_exp_trunc)
  ultimately show ?thesis using rt exact img by blast
qed

theorem fp16_roundtrip_normal_witness:
  "fp16_to_float (float_to_fp16 0x40490FDB) = 0x40490000
   \<and> fp16_to_float (float_to_fp16 0x3F800000) = 0x3F800000"
  using fp16_roundtrip_normal[of "0x40490FDB"] fp16_roundtrip_normal[of "0x3F800000"]
  by simp

text \<open>
  Claim C9. The C codec and the C++ codec are the same functions: on every 32-bit
  pattern \<^verbatim>\<open>FP16::fromFloat\<close> returns what \<^verbatim>\<open>float_to_fp16\<close> returns, and on
  every 16-bit pattern \<^verbatim>\<open>FP16::toFloat\<close> returns what \<^verbatim>\<open>fp16_to_float\<close> returns.
\<close>

theorem codec_c_cpp_agree:
  "FP16_fromFloat x = float_to_fp16 x \<and> FP16_toFloat h = fp16_to_float h"
  by (simp add: FP16_fromFloat_def float_to_fp16_def FP16_toFloat_def fp16_to_float_def)

subsection \<open>Overflow and underflow of the encoder\<close>

lemma exp_of_magnitude:
  "drop_bit 23 (x :: 32 word) AND 0xFF = drop_bit 23 (x AND 0x7FFFFFFF)"
  unfolding field_masks
  by (rule bit_eqI) (auto simp add: bit_simps)

lemma exp_ge_143:
  fixes m :: "32 word"
  shows "(0x47800000 \<le> m) = (143 \<le> drop_bit 23 m)"
proof -
  have "unat (drop_bit 23 m) = unat m div 8388608"
    by (simp add: unat_drop_bit_eq drop_bit_eq_div unat_div)
  then show ?thesis
    by (simp add: word_le_nat_alt) linarith
qed

lemma exp_lt_113:
  fixes m :: "32 word"
  shows "(m < 0x38800000) = (drop_bit 23 m < 113)"
proof -
  have "unat (drop_bit 23 m) = unat m div 8388608"
    by (simp add: unat_drop_bit_eq drop_bit_eq_div unat_div)
  then show ?thesis
    by (simp add: word_less_nat_alt) linarith
qed

lemma sign_bit: "drop_bit 31 (x :: 32 word) AND 0x1 = (if bit x 31 then 1 else 0)"
  by (simp add: and_one_eq bit_iff_odd_drop_bit mod_2_eq_odd)


lemma float_to_fp16_overflow:
  fixes x :: float
  assumes fin: "drop_bit 23 x AND 0xFF \<noteq> 0xFF" and big: "0x47800000 \<le> x AND 0x7FFFFFFF"
  shows "float_to_fp16 x = (if bit x 31 then 0xFC00 else 0x7C00)"
proof -
  define e where "e = drop_bit 23 x AND 0xFF"
  have e143: "143 \<le> e"
    using big unfolding e_def exp_of_magnitude exp_ge_143 .
  have le: "e \<le> 0xFF" unfolding e_def by (rule exp32_le)
  then have s: "sint (e - 127 + 15) = uint e - 112" by (rule sint_rebias)
  have "143 \<le> uint e" using e143 by (simp add: word_le_def)
  then have c: "\<not> sint (e - 127 + 15) \<le> 0" "31 \<le> sint (e - 127 + 15)"
    using s by linarith+
  have ne: "e \<noteq> 0xFF" "e \<noteq> 0" using fin e143 by (auto simp add: e_def)
  have "float_to_fp16 x = ucast (push_bit 15 (drop_bit 31 x AND 0x1) OR (0x7C00 :: 32 word))"
    using ne c unfolding float_to_fp16_def e_def[symmetric] Let_def by simp
  then show ?thesis by (simp add: sign_bit)
qed

lemma float_to_fp16_underflow:
  fixes x :: float
  assumes small: "x AND 0x7FFFFFFF < 0x38800000"
  shows "float_to_fp16 x = (if bit x 31 then 0x8000 else 0)"
proof -
  define e where "e = drop_bit 23 x AND 0xFF"
  have e113: "e < 113"
    using small unfolding e_def exp_of_magnitude exp_lt_113 .
  have le: "e \<le> 0xFF" unfolding e_def by (rule exp32_le)
  then have s: "sint (e - 127 + 15) = uint e - 112" by (rule sint_rebias)
  have "uint e < 113" using e113 by (simp add: word_less_def)
  then have c: "sint (e - 127 + 15) \<le> 0"
    using s by linarith
  have ne: "e \<noteq> 0xFF" using e113 by auto
  have "float_to_fp16 x = ucast (push_bit 15 (drop_bit 31 x AND 0x1) :: 32 word)"
    using ne c unfolding float_to_fp16_def e_def[symmetric] Let_def by simp
  then show ?thesis by (simp add: sign_bit)
qed

lemma FP16_fromFloat_eq: "FP16_fromFloat x = float_to_fp16 x"
  by (simp add: FP16_fromFloat_def float_to_fp16_def)

lemma FP16_toFloat_eq: "FP16_toFloat h = fp16_to_float h"
  by (simp add: FP16_toFloat_def fp16_to_float_def)

text \<open>
  Claim C5, as amended. The magnitude of a float is its pattern without the sign bit;
  patterns of finite floats are ordered as their magnitudes are. \<open>0x47800000\<close> is
  65536.0, the first value whose rebiased exponent is 31, and \<open>0x38800000\<close> is
  \<open>2\<^sup>-\<^sup>1\<^sup>4\<close>, the least normal half. For every finite input (exponent field not
  all ones): a magnitude of at least 65536 encodes to signed infinity (\<open>0x7C00\<close> or
  \<open>0xFC00\<close>), and a magnitude below the least normal half encodes to signed zero
  (\<open>0x0000\<close> or \<open>0x8000\<close>). The same holds of the C++ encoder.
\<close>

theorem float_to_fp16_saturation:
  fixes x :: float
  assumes "drop_bit 23 x AND 0xFF \<noteq> 0xFF"
  shows "(0x47800000 \<le> x AND 0x7FFFFFFF \<longrightarrow>
            float_to_fp16 x = (if bit x 31 then 0xFC00 else 0x7C00)
          \<and> FP16_fromFloat x = (if bit x 31 then 0xFC00 else 0x7C00))
       \<and> (x AND 0x7FFFFFFF < 0x38800000 \<longrightarrow>
            float_to_fp16 x = (if bit x 31 then 0x8000 else 0)
          \<and> FP16_fromFloat x = (if bit x 31 then 0x8000 else 0))"
  using assms float_to_fp16_overflow[of x] float_to_fp16_underflow[of x]
  by (simp add: FP16_fromFloat_eq)

theorem float_to_fp16_saturation_witness:
  "float_to_fp16 0x47800000 = 0x7C00 \<and> FP16_fromFloat 0xC7800000 = 0xFC00
   \<and> float_to_fp16 0x387FFFFF = 0 \<and> FP16_fromFloat 0x80000001 = 0x8000"
  using float_to_fp16_saturation[of "0x47800000"] float_to_fp16_saturation[of "0xC7800000"]
    float_to_fp16_saturation[of "0x387FFFFF"] float_to_fp16_saturation[of "0x80000001"]
  by simp

text \<open>
  Claim C5 as it was stated fails between the largest finite half and 65536: the
  finite float \<open>0x477FF000\<close> is 65520.0, above 65504.0 = \<open>0x477FE000\<close>, the value of
  the largest finite half \<open>0x7BFF\<close>; its mantissa is truncated and it encodes to
  \<open>0x7BFF\<close>, not to infinity.
\<close>

theorem float_to_fp16_saturation_counterexample:
  "drop_bit 23 (0x477FF000 :: float) AND 0xFF \<noteq> 0xFF
   \<and> fp16_to_float 0x7BFF = 0x477FE000
   \<and> (0x477FE000 :: float) < 0x477FF000 AND 0x7FFFFFFF
   \<and> float_to_fp16 0x477FF000 = 0x7BFF
   \<and> float_to_fp16 0x477FF000 \<noteq> 0x7C00
   \<and> float_to_fp16 0x477FF000 \<noteq> 0xFC00
   \<and> FP16_fromFloat 0x477FF000 = 0x7BFF"
  by (simp add: float_to_fp16_def fp16_to_float_def FP16_fromFloat_def)

section \<open>The command protocol\<close>

lemma odd_unat_byte: "odd (unat (addr :: byte)) = odd addr"
proof -
  have "bit (unat addr) 0 = bit addr 0" by (simp add: bit_unsigned_iff)
  then show ?thesis by (simp only: bit_0)
qed

lemma odd_addr_iff: "((addr :: byte) mod 2 = 0) = even (unat addr)"
  using odd_unat_byte[of addr] by (simp add: mod_2_eq_odd)

lemma even_addr_succ_region:
  fixes addr :: byte
  assumes "even (unat addr)"
  shows "(addr + 1 < 128) = (addr < 128)"
proof -
  have u: "unat addr < 256" using unsigned_less[of addr, where 'a=nat] by simp
  have ne: "unat addr \<noteq> 255" "unat addr \<noteq> 127" using assms by auto
  then have "unat (addr + 1) = unat addr + 1"
    using u by (simp add: unat_word_ariths)
  then show ?thesis using ne by (simp add: word_less_nat_alt) linarith
qed

text \<open>
  Claim C6. At an odd address the 16-bit accessors fail before any I/O: the C functions
  return \<^verbatim>\<open>-1\<close> (here \<open>- 1\<close> and \<open>None\<close>), the C++ members throw
  \<^verbatim>\<open>std::invalid_argument\<close>, and the port is returned as it was: nothing is added to
  the log of writes, no read is counted, no time has passed.
\<close>

theorem fp16_odd_address_rejected:
  fixes addr :: byte
  assumes "odd (unat addr)"
  shows "tpu_write_fp16 dev addr v s = (- 1, s)
       \<and> tpu_read_fp16 dev addr s = (None, s)
       \<and> TPUDriver_writeFP16 dev addr v s = (Inl (invalid_argument ''FP16 address must be even''), s)
       \<and> TPUDriver_readFP16 dev addr s = (Inl (invalid_argument ''FP16 address must be even''), s)"
  using assms
  by (simp add: tpu_write_fp16_def tpu_read_fp16_def TPUDriver_writeFP16_def
      TPUDriver_readFP16_def odd_addr_iff)

theorem fp16_odd_address_rejected_witness:
  "tpu_write_fp16 (responder 0x4B) 131 0x3F800000 port0 = (- 1, port0)
   \<and> tpu_read_fp16 (responder 0x4B) 193 port0 = (None, port0)
   \<and> TPUDriver_writeFP16 (responder 0x4B) 1 0x3F800000 port0
       = (Inl (invalid_argument ''FP16 address must be even''), port0)
   \<and> TPUDriver_readFP16 (responder 0x4B) 255 port0
       = (Inl (invalid_argument ''FP16 address must be even''), port0)"
  using fp16_odd_address_rejected[of 131 "responder 0x4B" "0x3F800000" port0]
    fp16_odd_address_rejected[of 193 "responder 0x4B" "0x3F800000" port0]
    fp16_odd_address_rejected[of 1 "responder 0x4B" "0x3F800000" port0]
    fp16_odd_address_rejected[of 255 "responder 0x4B" "0x3F800000" port0]
  by simp

text \<open>
  Claim C7. Let the read that follows the command return \<open>m\<close> bytes and the byte
  \<open>ack\<close>. If \<open>m\<close> is not 1 or \<open>ack\<close> is not \<^verbatim>\<open>'K'\<close> (\<open>0x4B\<close>), then
  \<^verbatim>\<open>tpu_write_byte\<close> and \<^verbatim>\<open>tpu_start\<close> return \<^verbatim>\<open>-1\<close>, the only failure value
  the C driver has, and \<^verbatim>\<open>writeByte\<close> and \<^verbatim>\<open>start\<close> throw; when the transport itself
  reported no error the exception is the one for a missing acknowledgement. In no case
  is the command reported as a success.
\<close>

theorem ack_checked:
  assumes "rd_ret dev (n_rd s) = (m, ack)" and "m \<noteq> 1 \<or> ack \<noteq> 0x4B"
  shows "fst (tpu_write_byte dev addr data s) = - 1
       \<and> fst (tpu_start dev s) = - 1
       \<and> isl (fst (TPUDriver_writeByte dev addr data s))
       \<and> isl (fst (TPUDriver_start dev s))
       \<and> (0 \<le> wr_ret dev (length (tx s)) 3 \<and> 0 \<le> m \<longrightarrow>
            fst (TPUDriver_writeByte dev addr data s) = Inl (runtime_error ''Failed to receive ACK''))
       \<and> (0 \<le> wr_ret dev (length (tx s)) 1 \<and> 0 \<le> m \<longrightarrow>
            fst (TPUDriver_start dev s) = Inl (runtime_error ''Failed to start TPU''))"
  using assms
  by (auto simp add: tpu_write_byte_def tpu_start_def TPUDriver_writeByte_def TPUDriver_start_def
      serial_write_def serial_read_def SerialPort_write_def SerialPort_read_def Let_def
      eval_nat_numeral
      split: prod.splits sum.splits if_splits)


theorem ack_checked_witness:
  "fst (tpu_write_byte (responder 0x4E) 0 0x2A port0) = - 1
   \<and> fst (tpu_start (responder 0x4E) port0) = - 1
   \<and> fst (TPUDriver_writeByte (responder 0x4E) 0 0x2A port0)
       = Inl (runtime_error ''Failed to receive ACK'')
   \<and> fst (TPUDriver_start (responder 0x4E) port0) = Inl (runtime_error ''Failed to start TPU'')"
  using ack_checked[of "responder 0x4E" port0 1 "0x4E" 0 "0x2A"]
  by (simp add: responder_def port0_def)

text \<open>
  Claim C10. At an even address both sub-calls of the 16-bit write put the same command
  byte on the line: \<^verbatim>\<open>'W'\<close> twice when the address is below 128, \<^verbatim>\<open>'A'\<close> twice
  otherwise. The log of writes grows by the low-byte frame at \<open>addr\<close> and, when that
  sub-call succeeded, by the high-byte frame at \<open>addr + 1\<close>, with the same command.
\<close>

theorem write_fp16_same_command:
  fixes addr :: byte
  assumes "even (unat addr)"
  shows "(let c = (if addr < 128 then CMD_WRITE_WEIGHT else CMD_WRITE_ACTIVATION);
              low = ucast (float_to_fp16 v AND 0xFF);
              high = ucast (drop_bit 8 (float_to_fp16 v) AND 0xFF);
              s' = snd (tpu_write_fp16 dev addr v s);
              t' = snd (TPUDriver_writeFP16 dev addr v s)
          in tx s' = (if fst (tpu_write_byte dev addr low s) = 0
                      then tx s @ [[c, addr, low], [c, addr + 1, high]]
                      else tx s @ [[c, addr, low]])
           \<and> tx t' = (if isl (fst (TPUDriver_writeByte dev addr low s))
                      then tx s @ [[c, addr, low]]
                      else tx s @ [[c, addr, low], [c, addr + 1, high]]))"
  using assms even_addr_succ_region[OF assms]
  by (auto simp add: tpu_write_fp16_def TPUDriver_writeFP16_def tpu_write_byte_def
      TPUDriver_writeByte_def serial_write_def serial_read_def SerialPort_write_def
      SerialPort_read_def Let_def odd_addr_iff FP16_fromFloat_eq
      split: prod.splits sum.splits if_splits)

theorem write_fp16_same_command_witness:
  "tx (snd (tpu_write_fp16 (responder 0x4B) 126 0x3F800000 port0))
     = [[CMD_WRITE_WEIGHT, 126, 0x00], [CMD_WRITE_WEIGHT, 127, 0x3C]]
   \<and> tx (snd (TPUDriver_writeFP16 (responder 0x4B) 128 0x3F800000 port0))
     = [[CMD_WRITE_ACTIVATION, 128, 0x00], [CMD_WRITE_ACTIVATION, 129, 0x3C]]"
  using write_fp16_same_command[of 126 "0x3F800000" "responder 0x4B" port0]
    write_fp16_same_command[of 128 "0x3F800000" "responder 0x4B" port0]
  by (simp add: Let_def tpu_write_byte_def TPUDriver_writeByte_def serial_write_def serial_read_def
      SerialPort_write_def SerialPort_read_def responder_def port0_def float_to_fp16_def)

section \<open>Polling\<close>

text \<open>
  Claim C8. Take the poll loop at any iteration, in any state \<open>s\<close>, with any start
  time and timeout. If the status exchange succeeds and the status byte \<open>b\<close> has the
  done bit set, the loop returns success at once, with the port as the status query
  left it. Nothing is asked of bit 0: \<open>busy\<close> is decoded from it and never read, so
  \<open>0x02\<close> and \<open>0x03\<close> end the loop alike. Nothing is asked of the clock either: the
  done test comes before the timeout test.
\<close>

theorem done_takes_precedence:
  assumes "wr_ret dev (length (tx s)) 1 = 1" and "rd_ret dev (n_rd s) = (1, b)"
    and "b AND STATUS_DONE \<noteq> 0"
  shows "fst (tpu_get_status dev s)
           = Some \<lparr>status_busy = (if b AND STATUS_BUSY \<noteq> 0 then 1 else 0), status_done = 1\<rparr>
       \<and> tpu_wait_until_done_loop dev timeout_ms start s
           = Some (0, snd (tpu_get_status dev s))
       \<and> fst (TPUDriver_getStatus dev s)
           = Inr \<lparr>cpp_busy = (b AND 0x01 \<noteq> 0), cpp_done = True\<rparr>
       \<and> TPUDriver_waitUntilDone_loop dev timeout_ms start s
           = Some (Inr (), snd (TPUDriver_getStatus dev s))
       \<and> tpu_wait_until_done dev timeout_ms s = Some (0, snd (tpu_get_status dev s))
       \<and> TPUDriver_waitUntilDone dev timeout_ms s = Some (Inr (), snd (TPUDriver_getStatus dev s))"
proof -
  have c: "tpu_get_status dev s =
      (Some \<lparr>status_busy = (if b AND STATUS_BUSY \<noteq> 0 then 1 else 0), status_done = 1\<rparr>,
       snd (tpu_get_status dev s))"
    using assms by (simp add: tpu_get_status_def serial_write_def serial_read_def)
  have cpp: "TPUDriver_getStatus dev s =
      (Inr \<lparr>cpp_busy = (b AND 0x01 \<noteq> 0), cpp_done = True\<rparr>, snd (TPUDriver_getStatus dev s))"
    using assms
    by (simp add: TPUDriver_getStatus_def SerialPort_write_def SerialPort_read_def
        serial_write_def serial_read_def)
  have l1: "tpu_wait_until_done_loop dev timeout_ms t s = Some (0, snd (tpu_get_status dev s))"
    for t
    by (subst tpu_wait_until_done_loop.simps, subst c) simp
  have l2: "TPUDriver_waitUntilDone_loop dev timeout_ms t s
      = Some (Inr (), snd (TPUDriver_getStatus dev s))" for t
    by (subst TPUDriver_waitUntilDone_loop.simps, subst cpp) simp
  have e1: "tpu_wait_until_done dev timeout_ms s = Some (0, snd (tpu_get_status dev s))"
    by (simp add: tpu_wait_until_done_def l1)
  have e2: "TPUDriver_waitUntilDone dev timeout_ms s = Some (Inr (), snd (TPUDriver_getStatus dev s))"
    by (simp add: TPUDriver_waitUntilDone_def l2)
  have f1: "fst (tpu_get_status dev s)
           = Some \<lparr>status_busy = (if b AND STATUS_BUSY \<noteq> 0 then 1 else 0), status_done = 1\<rparr>"
    using c by (metis fst_conv)
  have f2: "fst (TPUDriver_getStatus dev s)
           = Inr \<lparr>cpp_busy = (b AND 0x01 \<noteq> 0), cpp_done = True\<rparr>"
    using cpp by (metis fst_conv)
  show ?thesis using f1 f2 l1[of start] l2[of start] e1 e2 by (intro conjI)
qed

theorem done_takes_precedence_witness:
  "map_option fst (tpu_wait_until_done_loop (responder 0x03) 10000 0 port0) = Some 0
   \<and> map_option fst (tpu_wait_until_done_loop (responder 0x02) 0 (- 5000) port0) = Some 0
   \<and> map_option fst (TPUDriver_waitUntilDone_loop (responder 0x03) 10000 0 port0) = Some (Inr ())
   \<and> map_option fst (tpu_wait_until_done (responder 0x03) 10000 port0) = Some 0"
  using done_takes_precedence[of "responder 0x03" port0 "0x03" 10000 0]
    done_takes_precedence[of "responder 0x02" port0 "0x02" 0 "- 5000"]
  by (simp add: responder_def port0_def)

section \<open>Matrix transfer\<close>

lemma even_addr_iff: "((addr :: byte) mod 2 = 0) = even addr"
  by (simp add: mod_2_eq_odd)

lemma concat_map_upt_Suc:
  "concat (map f [0..<Suc n]) = f 0 @ concat (map (\<lambda>k. f (Suc k)) [0..<n])"
proof -
  have "[0..<Suc n] = 0 # [Suc 0..<Suc n]"
    by (rule upt_conv_Cons) simp
  also have "\<dots> = 0 # map Suc [0..<n]"
    by (simp only: map_Suc_upt)
  finally have "[0..<Suc n] = 0 # map Suc [0..<n]" .
  then have "concat (map f [0..<Suc n]) = concat (map f (0 # map Suc [0..<n]))"
    by (rule arg_cong)
  then show ?thesis by (simp only: list.map concat.simps map_map comp_def)
qed

lemma concat_map_upt_add:
  "concat (map f [0..<a + b]) = concat (map f [0..<a]) @ concat (map (\<lambda>k. f (k + a)) [0..<b])"
proof -
  have "[0..<a + b] = [0..<a] @ [a..<a + b]"
    by (rule upt_add_eq_append) simp
  also have "[a..<a + b] = map (\<lambda>k. k + a) [0..<b]"
    by (simp only: map_add_upt add.commute)
  finally have "[0..<a + b] = [0..<a] @ map (\<lambda>k. k + a) [0..<b]" .
  then have "concat (map f [0..<a + b]) = concat (map f ([0..<a] @ map (\<lambda>k. k + a) [0..<b]))"
    by (rule arg_cong)
  then show ?thesis by (simp only: map_append concat_append map_map comp_def)
qed

subsection \<open>Reading the result matrix\<close>

lemma tpu_read_byte_ok:
  assumes "wr_ret dev (length (tx s)) 2 = 2" and "fst (rd_ret dev (n_rd s)) = 1"
  shows "\<exists>s'. tpu_read_byte dev addr s = (Some (snd (rd_ret dev (n_rd s))), s')
           \<and> tx s' = tx s @ [[CMD_READ_RESULT, addr]] \<and> n_rd s' = n_rd s + 1"
  using assms
  by (cases "rd_ret dev (n_rd s)")
    (simp add: tpu_read_byte_def serial_write_def serial_read_def eval_nat_numeral)

lemma tpu_read_fp16_ok:
  assumes wr: "\<forall>k. wr_ret dev k 2 = 2" and rd: "\<forall>k. fst (rd_ret dev k) = 1"
    and ev: "even addr"
  shows "\<exists>s'. tpu_read_fp16 dev addr s
             = (Some (fp16_to_float (halves (snd (rd_ret dev (n_rd s)))
                                            (snd (rd_ret dev (n_rd s + 1))))), s')
           \<and> tx s' = tx s @ [[CMD_READ_RESULT, addr], [CMD_READ_RESULT, addr + 1]]
           \<and> n_rd s' = n_rd s + 2"
proof -
  obtain s1 where 1: "tpu_read_byte dev addr s = (Some (snd (rd_ret dev (n_rd s))), s1)"
    "tx s1 = tx s @ [[CMD_READ_RESULT, addr]]" "n_rd s1 = n_rd s + 1"
    using tpu_read_byte_ok[where s = s and addr = addr and dev = dev] wr rd by auto
  obtain s2 where 2: "tpu_read_byte dev (addr + 1) s1 = (Some (snd (rd_ret dev (n_rd s1))), s2)"
    "tx s2 = tx s1 @ [[CMD_READ_RESULT, addr + 1]]" "n_rd s2 = n_rd s1 + 1"
    using tpu_read_byte_ok[where s = s1 and addr = "addr + 1" and dev = dev] wr rd by auto
  show ?thesis
    using ev 1 2 by (simp add: tpu_read_fp16_def even_addr_iff)
qed

lemma tpu_read_results_j_ok:
  "\<forall>k. wr_ret dev k 2 = 2 \<Longrightarrow> \<forall>k. fst (rd_ret dev k) = 1 \<Longrightarrow> even addr \<Longrightarrow> j \<le> MATRIX_SIZE \<Longrightarrow>
    \<exists>results' s'. tpu_read_results_j dev i j addr results s
          = (0, addr + 2 * of_nat (MATRIX_SIZE - j), results', s')
      \<and> tx s' = tx s @ concat (map (\<lambda>k. [[CMD_READ_RESULT, addr + 2 * of_nat k],
                                          [CMD_READ_RESULT, addr + 2 * of_nat k + 1]])
                                [0..<MATRIX_SIZE - j])
      \<and> n_rd s' = n_rd s + 2 * (MATRIX_SIZE - j)
      \<and> (\<forall>a b. results' a b =
            (if a = i \<and> j \<le> b \<and> b < MATRIX_SIZE
             then fp16_to_float (halves (snd (rd_ret dev (n_rd s + 2 * (b - j))))
                                        (snd (rd_ret dev (n_rd s + 2 * (b - j) + 1))))
             else results a b))"
proof (induction dev i j addr results s rule: tpu_read_results_j.induct)
  case (1 dev i j addr results s)
  note wr = "1.prems"(1) and rd = "1.prems"(2) and ev = "1.prems"(3) and le = "1.prems"(4)
  show ?case
  proof (cases "j < MATRIX_SIZE")
    case False
    then have "j = MATRIX_SIZE" using le by simp
    then show ?thesis by (auto simp add: tpu_read_results_j.simps)
  next
    case True
    note lt = True
    define v where "v = fp16_to_float (halves (snd (rd_ret dev (n_rd s)))
                                              (snd (rd_ret dev (n_rd s + 1))))"
    obtain s1 where f: "tpu_read_fp16 dev addr s = (Some v, s1)"
      "tx s1 = tx s @ [[CMD_READ_RESULT, addr], [CMD_READ_RESULT, addr + 1]]"
      "n_rd s1 = n_rd s + 2"
      unfolding v_def using tpu_read_fp16_ok[OF wr rd ev, where s = s] by blast
    have ev2: "even (addr + 2)" using ev by simp
    have le2: "j + 1 \<le> MATRIX_SIZE" using True by simp
    obtain results' s' where ih:
      "tpu_read_results_j dev i (j + 1) (addr + 2) (results(i := (results i)(j := v))) s1
         = (0, addr + 2 + 2 * of_nat (MATRIX_SIZE - (j + 1)), results', s')"
      "tx s' = tx s1 @ concat (map (\<lambda>k. [[CMD_READ_RESULT, addr + 2 + 2 * of_nat k],
                                          [CMD_READ_RESULT, addr + 2 + 2 * of_nat k + 1]])
                                [0..<MATRIX_SIZE - (j + 1)])"
      "n_rd s' = n_rd s1 + 2 * (MATRIX_SIZE - (j + 1))"
      "\<forall>a b. results' a b =
            (if a = i \<and> j + 1 \<le> b \<and> b < MATRIX_SIZE
             then fp16_to_float (halves (snd (rd_ret dev (n_rd s1 + 2 * (b - (j + 1)))))
                                        (snd (rd_ret dev (n_rd s1 + 2 * (b - (j + 1)) + 1))))
             else (results(i := (results i)(j := v))) a b)"
      using "1.IH"[OF True f(1)[symmetric] refl wr rd ev2 le2] by blast
    have n: "MATRIX_SIZE - j = Suc (MATRIX_SIZE - (j + 1))" using True by simp
    have a: "addr + 2 + 2 * of_nat (MATRIX_SIZE - (j + 1)) = addr + 2 * of_nat (MATRIX_SIZE - j)"
      unfolding n by simp
    have r: "tpu_read_results_j dev i j addr results s
        = (0, addr + 2 * of_nat (MATRIX_SIZE - j), results', s')"
      using True f(1) ih(1) a by (subst tpu_read_results_j.simps) simp
    have t: "tx s' = tx s @ concat (map (\<lambda>k. [[CMD_READ_RESULT, addr + 2 * of_nat k],
                                          [CMD_READ_RESULT, addr + 2 * of_nat k + 1]])
                                [0..<MATRIX_SIZE - j])"
      unfolding n concat_map_upt_Suc ih(2) f(2) by (simp add: algebra_simps)
    have c: "n_rd s' = n_rd s + 2 * (MATRIX_SIZE - j)"
      using ih(3) f(3) True by simp
    have e: "results' a b =
            (if a = i \<and> j \<le> b \<and> b < MATRIX_SIZE
             then fp16_to_float (halves (snd (rd_ret dev (n_rd s + 2 * (b - j))))
                                        (snd (rd_ret dev (n_rd s + 2 * (b - j) + 1))))
             else results a b)" for a b
    proof (cases "a = i \<and> j + 1 \<le> b \<and> b < MATRIX_SIZE")
      case True
      have eq: "n_rd s1 + 2 * (b - (j + 1)) = n_rd s + 2 * (b - j)"
        using f(3) True lt by arith
      have "results' a b =
          fp16_to_float (halves (snd (rd_ret dev (n_rd s1 + 2 * (b - (j + 1)))))
                                (snd (rd_ret dev (n_rd s1 + 2 * (b - (j + 1)) + 1))))"
        using ih(4) True by simp
      then show ?thesis unfolding eq using True lt by simp
    next
      case False
      then show ?thesis using ih(4) lt by (auto simp add: v_def)
    qed
    show ?thesis using r t c e by blast
  qed
qed

lemma tpu_read_results_i_ok:
  "\<forall>k. wr_ret dev k 2 = 2 \<Longrightarrow> \<forall>k. fst (rd_ret dev k) = 1 \<Longrightarrow> even addr \<Longrightarrow> i \<le> MATRIX_SIZE \<Longrightarrow>
    \<exists>results' s'. tpu_read_results_i dev i addr results s = (0, results', s')
      \<and> tx s' = tx s @ concat (map (\<lambda>k. [[CMD_READ_RESULT, addr + 2 * of_nat k],
                                          [CMD_READ_RESULT, addr + 2 * of_nat k + 1]])
                                [0..<MATRIX_SIZE * (MATRIX_SIZE - i)])
      \<and> n_rd s' = n_rd s + 2 * (MATRIX_SIZE * (MATRIX_SIZE - i))
      \<and> (\<forall>a b. results' a b =
            (if i \<le> a \<and> a < MATRIX_SIZE \<and> b < MATRIX_SIZE
             then fp16_to_float
                    (halves (snd (rd_ret dev (n_rd s + 2 * (MATRIX_SIZE * (a - i) + b))))
                            (snd (rd_ret dev (n_rd s + 2 * (MATRIX_SIZE * (a - i) + b) + 1))))
             else results a b))"
proof (induction dev i addr results s rule: tpu_read_results_i.induct)
  case (1 dev i addr results s)
  note wr = "1.prems"(1) and rd = "1.prems"(2) and ev = "1.prems"(3) and le = "1.prems"(4)
  show ?case
  proof (cases "i < MATRIX_SIZE")
    case False
    then have "i = MATRIX_SIZE" using le by simp
    then show ?thesis by (auto simp add: tpu_read_results_i.simps)
  next
    case True
    note lt = True
    obtain results1 s1 where row:
      "tpu_read_results_j dev i 0 addr results s = (0, addr + 2 * of_nat (MATRIX_SIZE - 0), results1, s1)"
      "tx s1 = tx s @ concat (map (\<lambda>k. [[CMD_READ_RESULT, addr + 2 * of_nat k],
                                          [CMD_READ_RESULT, addr + 2 * of_nat k + 1]])
                                [0..<MATRIX_SIZE - 0])"
      "n_rd s1 = n_rd s + 2 * (MATRIX_SIZE - 0)"
      "\<forall>a b. results1 a b =
            (if a = i \<and> 0 \<le> b \<and> b < MATRIX_SIZE
             then fp16_to_float (halves (snd (rd_ret dev (n_rd s + 2 * (b - 0))))
                                        (snd (rd_ret dev (n_rd s + 2 * (b - 0) + 1))))
             else results a b)"
      using tpu_read_results_j_ok[OF wr rd ev, where j = 0 and i = i and results = results and s = s]
      by blast
    have row1: "tpu_read_results_j dev i 0 addr results s = (0, addr + 16, results1, s1)"
      using row(1) by simp
    have ev2: "even (addr + 16)" using ev by simp
    have le2: "i + 1 \<le> MATRIX_SIZE" using True by simp
    obtain results' s' where ih:
      "tpu_read_results_i dev (i + 1) (addr + 16) results1 s1 = (0, results', s')"
      "tx s' = tx s1 @ concat (map (\<lambda>k. [[CMD_READ_RESULT, addr + 16 + 2 * of_nat k],
                                          [CMD_READ_RESULT, addr + 16 + 2 * of_nat k + 1]])
                                [0..<MATRIX_SIZE * (MATRIX_SIZE - (i + 1))])"
      "n_rd s' = n_rd s1 + 2 * (MATRIX_SIZE * (MATRIX_SIZE - (i + 1)))"
      "\<forall>a b. results' a b =
            (if i + 1 \<le> a \<and> a < MATRIX_SIZE \<and> b < MATRIX_SIZE
             then fp16_to_float
                    (halves (snd (rd_ret dev (n_rd s1 + 2 * (MATRIX_SIZE * (a - (i + 1)) + b))))
                            (snd (rd_ret dev (n_rd s1 + 2 * (MATRIX_SIZE * (a - (i + 1)) + b) + 1))))
             else results1 a b)"
      using "1.IH"[OF True row1[symmetric] refl refl _ wr rd ev2 le2] by blast
    have n: "MATRIX_SIZE * (MATRIX_SIZE - i) = MATRIX_SIZE + MATRIX_SIZE * (MATRIX_SIZE - (i + 1))"
      using True by simp
    have r: "tpu_read_results_i dev i addr results s = (0, results', s')"
      using True row1 ih(1) by (subst tpu_read_results_i.simps) simp
    have t: "tx s' = tx s @ concat (map (\<lambda>k. [[CMD_READ_RESULT, addr + 2 * of_nat k],
                                          [CMD_READ_RESULT, addr + 2 * of_nat k + 1]])
                                [0..<MATRIX_SIZE * (MATRIX_SIZE - i)])"
      unfolding n concat_map_upt_add ih(2) row(2) by (simp add: algebra_simps)
    have c: "n_rd s' = n_rd s + 2 * (MATRIX_SIZE * (MATRIX_SIZE - i))"
      using ih(3) row(3) True by simp
    have e: "results' a b =
            (if i \<le> a \<and> a < MATRIX_SIZE \<and> b < MATRIX_SIZE
             then fp16_to_float
                    (halves (snd (rd_ret dev (n_rd s + 2 * (MATRIX_SIZE * (a - i) + b))))
                            (snd (rd_ret dev (n_rd s + 2 * (MATRIX_SIZE * (a - i) + b) + 1))))
             else results a b)" for a b
    proof (cases "i + 1 \<le> a \<and> a < MATRIX_SIZE \<and> b < MATRIX_SIZE")
      case True
      have eq: "n_rd s1 + 2 * (MATRIX_SIZE * (a - (i + 1)) + b)
          = n_rd s + 2 * (MATRIX_SIZE * (a - i) + b)"
        using row(3) True lt by arith
      have "results' a b =
          fp16_to_float
            (halves (snd (rd_ret dev (n_rd s1 + 2 * (MATRIX_SIZE * (a - (i + 1)) + b))))
                    (snd (rd_ret dev (n_rd s1 + 2 * (MATRIX_SIZE * (a - (i + 1)) + b) + 1))))"
        using ih(4) True by simp
      then show ?thesis unfolding eq using True lt by simp
    next
      case False
      then show ?thesis using ih(4) row(4) lt by auto
    qed
    show ?thesis using r t c e by blast
  qed
qed

lemma TPUDriver_readByte_ok:
  assumes "wr_ret dev (length (tx s)) 2 = 2" and "fst (rd_ret dev (n_rd s)) = 1"
  shows "\<exists>s'. TPUDriver_readByte dev addr s = (Inr (snd (rd_ret dev (n_rd s))), s')
           \<and> tx s' = tx s @ [[CMD_READ_RESULT, addr]] \<and> n_rd s' = n_rd s + 1"
  using assms
  by (cases "rd_ret dev (n_rd s)")
    (simp add: TPUDriver_readByte_def SerialPort_write_def SerialPort_read_def
      serial_write_def serial_read_def eval_nat_numeral)

lemma TPUDriver_readFP16_ok:
  assumes wr: "\<forall>k. wr_ret dev k 2 = 2" and rd: "\<forall>k. fst (rd_ret dev k) = 1"
    and ev: "even addr"
  shows "\<exists>s'. TPUDriver_readFP16 dev addr s
             = (Inr (fp16_to_float (halves (snd (rd_ret dev (n_rd s)))
                                            (snd (rd_ret dev (n_rd s + 1))))), s')
           \<and> tx s' = tx s @ [[CMD_READ_RESULT, addr], [CMD_READ_RESULT, addr + 1]]
           \<and> n_rd s' = n_rd s + 2"
proof -
  obtain s1 where 1: "TPUDriver_readByte dev addr s = (Inr (snd (rd_ret dev (n_rd s))), s1)"
    "tx s1 = tx s @ [[CMD_READ_RESULT, addr]]" "n_rd s1 = n_rd s + 1"
    using TPUDriver_readByte_ok[where s = s and addr = addr and dev = dev] wr rd by auto
  obtain s2 where 2: "TPUDriver_readByte dev (addr + 1) s1 = (Inr (snd (rd_ret dev (n_rd s1))), s2)"
    "tx s2 = tx s1 @ [[CMD_READ_RESULT, addr + 1]]" "n_rd s2 = n_rd s1 + 1"
    using TPUDriver_readByte_ok[where s = s1 and addr = "addr + 1" and dev = dev] wr rd by auto
  show ?thesis
    using ev 1 2 by (simp add: TPUDriver_readFP16_def FP16_toFloat_eq even_addr_iff)
qed

lemma TPUDriver_readResults_j_ok:
  "\<forall>k. wr_ret dev k 2 = 2 \<Longrightarrow> \<forall>k. fst (rd_ret dev k) = 1 \<Longrightarrow> even addr \<Longrightarrow> j \<le> MATRIX_SIZE \<Longrightarrow>
    \<exists>results' s'. TPUDriver_readResults_j dev i j addr results s
          = (Inr (addr + 2 * of_nat (MATRIX_SIZE - j), results'), s')
      \<and> tx s' = tx s @ concat (map (\<lambda>k. [[CMD_READ_RESULT, addr + 2 * of_nat k],
                                          [CMD_READ_RESULT, addr + 2 * of_nat k + 1]])
                                [0..<MATRIX_SIZE - j])
      \<and> n_rd s' = n_rd s + 2 * (MATRIX_SIZE - j)
      \<and> (\<forall>a b. results' a b =
            (if a = i \<and> j \<le> b \<and> b < MATRIX_SIZE
             then fp16_to_float (halves (snd (rd_ret dev (n_rd s + 2 * (b - j))))
                                        (snd (rd_ret dev (n_rd s + 2 * (b - j) + 1))))
             else results a b))"
proof (induction dev i j addr results s rule: TPUDriver_readResults_j.induct)
  case (1 dev i j addr results s)
  note wr = "1.prems"(1) and rd = "1.prems"(2) and ev = "1.prems"(3) and le = "1.prems"(4)
  show ?case
  proof (cases "j < MATRIX_SIZE")
    case False
    then have "j = MATRIX_SIZE" using le by simp
    then show ?thesis by (auto simp add: TPUDriver_readResults_j.simps)
  next
    case True
    note lt = True
    define v where "v = fp16_to_float (halves (snd (rd_ret dev (n_rd s)))
                                              (snd (rd_ret dev (n_rd s + 1))))"
    obtain s1 where f: "TPUDriver_readFP16 dev addr s = (Inr v, s1)"
      "tx s1 = tx s @ [[CMD_READ_RESULT, addr], [CMD_READ_RESULT, addr + 1]]"
      "n_rd s1 = n_rd s + 2"
      unfolding v_def using TPUDriver_readFP16_ok[OF wr rd ev, where s = s] by blast
    have ev2: "even (addr + 2)" using ev by simp
    have le2: "j + 1 \<le> MATRIX_SIZE" using True by simp
    obtain results' s' where ih:
      "TPUDriver_readResults_j dev i (j + 1) (addr + 2) (results(i := (results i)(j := v))) s1
         = (Inr (addr + 2 + 2 * of_nat (MATRIX_SIZE - (j + 1)), results'), s')"
      "tx s' = tx s1 @ concat (map (\<lambda>k. [[CMD_READ_RESULT, addr + 2 + 2 * of_nat k],
                                          [CMD_READ_RESULT, addr + 2 + 2 * of_nat k + 1]])
                                [0..<MATRIX_SIZE - (j + 1)])"
      "n_rd s' = n_rd s1 + 2 * (MATRIX_SIZE - (j + 1))"
      "\<forall>a b. results' a b =
            (if a = i \<and> j + 1 \<le> b \<and> b < MATRIX_SIZE
             then fp16_to_float (halves (snd (rd_ret dev (n_rd s1 + 2 * (b - (j + 1)))))
                                        (snd (rd_ret dev (n_rd s1 + 2 * (b - (j + 1)) + 1))))
             else (results(i := (results i)(j := v))) a b)"
      using "1.IH"[OF True f(1)[symmetric] refl wr rd ev2 le2] by blast
    have n: "MATRIX_SIZE - j = Suc (MATRIX_SIZE - (j + 1))" using True by simp
    have a: "addr + 2 + 2 * of_nat (MATRIX_SIZE - (j + 1)) = addr + 2 * of_nat (MATRIX_SIZE - j)"
      unfolding n by simp
    have r: "TPUDriver_readResults_j dev i j addr results s
        = (Inr (addr + 2 * of_nat (MATRIX_SIZE - j), results'), s')"
      using True f(1) ih(1) a by (subst TPUDriver_readResults_j.simps) simp
    have t: "tx s' = tx s @ concat (map (\<lambda>k. [[CMD_READ_RESULT, addr + 2 * of_nat k],
                                          [CMD_READ_RESULT, addr + 2 * of_nat k + 1]])
                                [0..<MATRIX_SIZE - j])"
      unfolding n concat_map_upt_Suc ih(2) f(2) by (simp add: algebra_simps)
    have c: "n_rd s' = n_rd s + 2 * (MATRIX_SIZE - j)"
      using ih(3) f(3) True by simp
    have e: "results' a b =
            (if a = i \<and> j \<le> b \<and> b < MATRIX_SIZE
             then fp16_to_float (halves (snd (rd_ret dev (n_rd s + 2 * (b - j))))
                                        (snd (rd_ret dev (n_rd s + 2 * (b - j) + 1))))
             else results a b)" for a b
    proof (cases "a = i \<and> j + 1 \<le> b \<and> b < MATRIX_SIZE")
      case True
      have eq: "n_rd s1 + 2 * (b - (j + 1)) = n_rd s + 2 * (b - j)"
        using f(3) True lt by arith
      have "results' a b =
          fp16_to_float (halves (snd (rd_ret dev (n_rd s1 + 2 * (b - (j + 1)))))
                                (snd (rd_ret dev (n_rd s1 + 2 * (b - (j + 1)) + 1))))"
        using ih(4) True by simp
      then show ?thesis unfolding eq using True lt by simp
    next
      case False
      then show ?thesis using ih(4) lt by (auto simp add: v_def)
    qed
    show ?thesis using r t c e by blast
  qed
qed

lemma TPUDriver_readResults_i_ok:
  "\<forall>k. wr_ret dev k 2 = 2 \<Longrightarrow> \<forall>k. fst (rd_ret dev k) = 1 \<Longrightarrow> even addr \<Longrightarrow> i \<le> MATRIX_SIZE \<Longrightarrow>
    \<exists>results' s'. TPUDriver_readResults_i dev i addr results s = (Inr results', s')
      \<and> tx s' = tx s @ concat (map (\<lambda>k. [[CMD_READ_RESULT, addr + 2 * of_nat k],
                                          [CMD_READ_RESULT, addr + 2 * of_nat k + 1]])
                                [0..<MATRIX_SIZE * (MATRIX_SIZE - i)])
      \<and> n_rd s' = n_rd s + 2 * (MATRIX_SIZE * (MATRIX_SIZE - i))
      \<and> (\<forall>a b. results' a b =
            (if i \<le> a \<and> a < MATRIX_SIZE \<and> b < MATRIX_SIZE
             then fp16_to_float
                    (halves (snd (rd_ret dev (n_rd s + 2 * (MATRIX_SIZE * (a - i) + b))))
                            (snd (rd_ret dev (n_rd s + 2 * (MATRIX_SIZE * (a - i) + b) + 1))))
             else results a b))"
proof (induction dev i addr results s rule: TPUDriver_readResults_i.induct)
  case (1 dev i addr results s)
  note wr = "1.prems"(1) and rd = "1.prems"(2) and ev = "1.prems"(3) and le = "1.prems"(4)
  show ?case
  proof (cases "i < MATRIX_SIZE")
    case False
    then have "i = MATRIX_SIZE" using le by simp
    then show ?thesis by (auto simp add: TPUDriver_readResults_i.simps)
  next
    case True
    note lt = True
    obtain results1 s1 where row:
      "TPUDriver_readResults_j dev i 0 addr results s = (Inr (addr + 2 * of_nat (MATRIX_SIZE - 0), results1), s1)"
      "tx s1 = tx s @ concat (map (\<lambda>k. [[CMD_READ_RESULT, addr + 2 * of_nat k],
                                          [CMD_READ_RESULT, addr + 2 * of_nat k + 1]])
                                [0..<MATRIX_SIZE - 0])"
      "n_rd s1 = n_rd s + 2 * (MATRIX_SIZE - 0)"
      "\<forall>a b. results1 a b =
            (if a = i \<and> 0 \<le> b \<and> b < MATRIX_SIZE
             then fp16_to_float (halves (snd (rd_ret dev (n_rd s + 2 * (b - 0))))
                                        (snd (rd_ret dev (n_rd s + 2 * (b - 0) + 1))))
             else results a b)"
      using TPUDriver_readResults_j_ok[OF wr rd ev, where j = 0 and i = i and results = results and s = s]
      by blast
    have row1: "TPUDriver_readResults_j dev i 0 addr results s = (Inr (addr + 16, results1), s1)"
      using row(1) by simp
    have ev2: "even (addr + 16)" using ev by simp
    have le2: "i + 1 \<le> MATRIX_SIZE" using True by simp
    obtain results' s' where ih:
      "TPUDriver_readResults_i dev (i + 1) (addr + 16) results1 s1 = (Inr results', s')"
      "tx s' = tx s1 @ concat (map (\<lambda>k. [[CMD_READ_RESULT, addr + 16 + 2 * of_nat k],
                                          [CMD_READ_RESULT, addr + 16 + 2 * of_nat k + 1]])
                                [0..<MATRIX_SIZE * (MATRIX_SIZE - (i + 1))])"
      "n_rd s' = n_rd s1 + 2 * (MATRIX_SIZE * (MATRIX_SIZE - (i + 1)))"
      "\<forall>a b. results' a b =
            (if i + 1 \<le> a \<and> a < MATRIX_SIZE \<and> b < MATRIX_SIZE
             then fp16_to_float
                    (halves (snd (rd_ret dev (n_rd s1 + 2 * (MATRIX_SIZE * (a - (i + 1)) + b))))
                            (snd (rd_ret dev (n_rd s1 + 2 * (MATRIX_SIZE * (a - (i + 1)) + b) + 1))))
             else results1 a b)"
      using "1.IH"[OF True row1[symmetric] refl refl wr rd ev2 le2] by blast
    have n: "MATRIX_SIZE * (MATRIX_SIZE - i) = MATRIX_SIZE + MATRIX_SIZE * (MATRIX_SIZE - (i + 1))"
      using True by simp
    have r: "TPUDriver_readResults_i dev i addr results s = (Inr results', s')"
      using True row1 ih(1) by (subst TPUDriver_readResults_i.simps) simp
    have t: "tx s' = tx s @ concat (map (\<lambda>k. [[CMD_READ_RESULT, addr + 2 * of_nat k],
                                          [CMD_READ_RESULT, addr + 2 * of_nat k + 1]])
                                [0..<MATRIX_SIZE * (MATRIX_SIZE - i)])"
      unfolding n concat_map_upt_add ih(2) row(2) by (simp add: algebra_simps)
    have c: "n_rd s' = n_rd s + 2 * (MATRIX_SIZE * (MATRIX_SIZE - i))"
      using ih(3) row(3) True by simp
    have e: "results' a b =
            (if i \<le> a \<and> a < MATRIX_SIZE \<and> b < MATRIX_SIZE
             then fp16_to_float
                    (halves (snd (rd_ret dev (n_rd s + 2 * (MATRIX_SIZE * (a - i) + b))))
                            (snd (rd_ret dev (n_rd s + 2 * (MATRIX_SIZE * (a - i) + b) + 1))))
             else results a b)" for a b
    proof (cases "i + 1 \<le> a \<and> a < MATRIX_SIZE \<and> b < MATRIX_SIZE")
      case True
      have eq: "n_rd s1 + 2 * (MATRIX_SIZE * (a - (i + 1)) + b)
          = n_rd s + 2 * (MATRIX_SIZE * (a - i) + b)"
        using row(3) True lt by arith
      have "results' a b =
          fp16_to_float
            (halves (snd (rd_ret dev (n_rd s1 + 2 * (MATRIX_SIZE * (a - (i + 1)) + b))))
                    (snd (rd_ret dev (n_rd s1 + 2 * (MATRIX_SIZE * (a - (i + 1)) + b) + 1))))"
        using ih(4) True by simp
      then show ?thesis unfolding eq using True lt by simp
    next
      case False
      then show ?thesis using ih(4) row(4) lt by auto
    qed
    show ?thesis using r t c e by blast
  qed
qed

lemma length_concat_pairs:
  "length (concat (map (\<lambda>k. [g k, h k]) xs)) = 2 * length xs"
  by (induction xs) simp_all

lemma take_concat_pairs_upt:
  "take (2 * a) (concat (map (\<lambda>k. [g k, h k]) [0..<a + b])) = concat (map (\<lambda>k. [g k, h k]) [0..<a])"
proof -
  have l: "length (concat (map (\<lambda>k. [g k, h k]) [0..<a])) = 2 * a"
    by (simp only: length_concat_pairs length_upt diff_zero)
  show ?thesis
    unfolding concat_map_upt_add[of "\<lambda>k. [g k, h k]" a b] using l by simp
qed

lemma result_frames_facts:
  fixes base :: byte
  defines "L \<equiv> concat (map (\<lambda>k. [[CMD_READ_RESULT, base + 2 * of_nat k],
                                    [CMD_READ_RESULT, base + 2 * of_nat k + 1]]) [0..<64])"
  shows "length L = 128"
    and "take 64 L = concat (map (\<lambda>k. [[CMD_READ_RESULT, base + 2 * of_nat k],
                                    [CMD_READ_RESULT, base + 2 * of_nat k + 1]]) [0..<32])"
    and "\<forall>f\<in>set L. \<exists>a. f = [CMD_READ_RESULT, a]"
proof -
  show "length L = 128"
    unfolding L_def by (simp only: length_concat_pairs length_upt)
  have "take (2 * 32) (concat (map (\<lambda>k. [[CMD_READ_RESULT, base + 2 * of_nat k],
                                    [CMD_READ_RESULT, base + 2 * of_nat k + 1]]) [0..<32 + 32]))
      = concat (map (\<lambda>k. [[CMD_READ_RESULT, base + 2 * of_nat k],
                                    [CMD_READ_RESULT, base + 2 * of_nat k + 1]]) [0..<32])"
    by (rule take_concat_pairs_upt)
  then show "take 64 L = concat (map (\<lambda>k. [[CMD_READ_RESULT, base + 2 * of_nat k],
                                    [CMD_READ_RESULT, base + 2 * of_nat k + 1]]) [0..<32])"
    unfolding L_def by simp
  show "\<forall>f\<in>set L. \<exists>a. f = [CMD_READ_RESULT, a]"
    unfolding L_def by auto
qed

lemma tpu_read_results_frames:
  assumes wr: "\<forall>k. wr_ret dev k 2 = 2" and rd: "\<forall>k. fst (rd_ret dev k) = 1"
  shows "fst (tpu_read_results dev results s) = 0
       \<and> tx (snd (snd (tpu_read_results dev results s)))
           = tx s @ concat (map (\<lambda>k. [[CMD_READ_RESULT, RESULT_BASE + 2 * of_nat k],
                                        [CMD_READ_RESULT, RESULT_BASE + 2 * of_nat k + 1]]) [0..<64])
       \<and> n_rd (snd (snd (tpu_read_results dev results s))) = n_rd s + 128
       \<and> (\<forall>i j. i < MATRIX_SIZE \<and> j < MATRIX_SIZE \<longrightarrow>
             fst (snd (tpu_read_results dev results s)) i j
               = fp16_to_float (halves (snd (rd_ret dev (n_rd s + 2 * (MATRIX_SIZE * i + j))))
                                       (snd (rd_ret dev (n_rd s + 2 * (MATRIX_SIZE * i + j) + 1)))))"
proof -
  have ev: "even (RESULT_BASE :: byte)" by simp
  obtain results' s' where r: "tpu_read_results_i dev 0 RESULT_BASE results s = (0, results', s')"
      "tx s' = tx s @ concat (map (\<lambda>k. [[CMD_READ_RESULT, RESULT_BASE + 2 * of_nat k],
                                          [CMD_READ_RESULT, RESULT_BASE + 2 * of_nat k + 1]])
                                [0..<MATRIX_SIZE * (MATRIX_SIZE - 0)])"
      "n_rd s' = n_rd s + 2 * (MATRIX_SIZE * (MATRIX_SIZE - 0))"
      "\<forall>a b. results' a b =
            (if 0 \<le> a \<and> a < MATRIX_SIZE \<and> b < MATRIX_SIZE
             then fp16_to_float
                    (halves (snd (rd_ret dev (n_rd s + 2 * (MATRIX_SIZE * (a - 0) + b))))
                            (snd (rd_ret dev (n_rd s + 2 * (MATRIX_SIZE * (a - 0) + b) + 1))))
             else results a b)"
    using tpu_read_results_i_ok[OF wr rd ev, where i = 0 and results = results and s = s]
    by blast
  show ?thesis
    unfolding tpu_read_results_def r(1) using r(2,3,4) by simp
qed

lemma TPUDriver_readResults_frames:
  assumes wr: "\<forall>k. wr_ret dev k 2 = 2" and rd: "\<forall>k. fst (rd_ret dev k) = 1"
  shows "\<exists>results'. fst (TPUDriver_readResults dev s) = Inr results'
       \<and> tx (snd (TPUDriver_readResults dev s))
           = tx s @ concat (map (\<lambda>k. [[CMD_READ_RESULT, RESULT_BASE + 2 * of_nat k],
                                        [CMD_READ_RESULT, RESULT_BASE + 2 * of_nat k + 1]]) [0..<64])
       \<and> n_rd (snd (TPUDriver_readResults dev s)) = n_rd s + 128
       \<and> (\<forall>i j. i < MATRIX_SIZE \<and> j < MATRIX_SIZE \<longrightarrow>
             results' i j
               = fp16_to_float (halves (snd (rd_ret dev (n_rd s + 2 * (MATRIX_SIZE * i + j))))
                                       (snd (rd_ret dev (n_rd s + 2 * (MATRIX_SIZE * i + j) + 1)))))"
proof -
  have ev: "even (RESULT_BASE :: byte)" by simp
  obtain results' s' where r:
      "TPUDriver_readResults_i dev 0 RESULT_BASE (\<lambda>i j. 0) s = (Inr results', s')"
      "tx s' = tx s @ concat (map (\<lambda>k. [[CMD_READ_RESULT, RESULT_BASE + 2 * of_nat k],
                                          [CMD_READ_RESULT, RESULT_BASE + 2 * of_nat k + 1]])
                                [0..<MATRIX_SIZE * (MATRIX_SIZE - 0)])"
      "n_rd s' = n_rd s + 2 * (MATRIX_SIZE * (MATRIX_SIZE - 0))"
      "\<forall>a b. results' a b =
            (if 0 \<le> a \<and> a < MATRIX_SIZE \<and> b < MATRIX_SIZE
             then fp16_to_float
                    (halves (snd (rd_ret dev (n_rd s + 2 * (MATRIX_SIZE * (a - 0) + b))))
                            (snd (rd_ret dev (n_rd s + 2 * (MATRIX_SIZE * (a - 0) + b) + 1))))
             else 0)"
    using TPUDriver_readResults_i_ok[OF wr rd ev, where i = 0 and results = "\<lambda>i j. 0" and s = s]
    by blast
  show ?thesis
    unfolding TPUDriver_readResults_def r(1) using r(2,3,4) by simp
qed

text \<open>
  Claim C1, as amended. On a device that takes every request and answers every read,
  reading the result matrix succeeds after exactly 64 16-bit reads, which are 128
  two-byte read requests and 128 answer bytes. Element \<open>(i, j)\<close> is decoded from the
  answers number \<open>2 (8 i + j)\<close> and \<open>2 (8 i + j) + 1\<close>, low byte first: one 16-bit
  read per element, in row-major order. The first 32 of them, those of rows 0 to 3, go
  to the addresses 192, 194, ..., 254 and so cover the 64 bytes from 192 to 255, the
  whole result region. Nothing is said of the addresses of rows 4 to 7.
\<close>

theorem read_results_calls:
  assumes "\<forall>k. wr_ret dev k 2 = 2" and "\<forall>k. fst (rd_ret dev k) = 1"
  shows "(let r = tpu_read_results dev results s; results' = fst (snd r); s' = snd (snd r);
              sent = drop (length (tx s)) (tx s')
          in fst r = 0 \<and> length sent = 128 \<and> n_rd s' = n_rd s + 128
           \<and> (\<forall>f\<in>set sent. \<exists>a. f = [CMD_READ_RESULT, a])
           \<and> take 64 sent = concat (map (\<lambda>k. [[CMD_READ_RESULT, RESULT_BASE + 2 * of_nat k],
                                                 [CMD_READ_RESULT, RESULT_BASE + 2 * of_nat k + 1]])
                                       [0..<32])
           \<and> (\<forall>i j. i < MATRIX_SIZE \<and> j < MATRIX_SIZE \<longrightarrow>
                 results' i j
                   = fp16_to_float (halves (snd (rd_ret dev (n_rd s + 2 * (MATRIX_SIZE * i + j))))
                                           (snd (rd_ret dev (n_rd s + 2 * (MATRIX_SIZE * i + j) + 1))))))
       \<and> (let r = TPUDriver_readResults dev s; s' = snd r;
              sent = drop (length (tx s)) (tx s')
          in length sent = 128 \<and> n_rd s' = n_rd s + 128
           \<and> (\<forall>f\<in>set sent. \<exists>a. f = [CMD_READ_RESULT, a])
           \<and> take 64 sent = concat (map (\<lambda>k. [[CMD_READ_RESULT, RESULT_BASE + 2 * of_nat k],
                                                 [CMD_READ_RESULT, RESULT_BASE + 2 * of_nat k + 1]])
                                       [0..<32])
           \<and> (\<exists>results'. fst r = Inr results'
                \<and> (\<forall>i j. i < MATRIX_SIZE \<and> j < MATRIX_SIZE \<longrightarrow>
                 results' i j
                   = fp16_to_float (halves (snd (rd_ret dev (n_rd s + 2 * (MATRIX_SIZE * i + j))))
                                           (snd (rd_ret dev (n_rd s + 2 * (MATRIX_SIZE * i + j) + 1)))))))"
proof -
  note c = tpu_read_results_frames[OF assms, of results s]
  have c_sent: "drop (length (tx s)) (tx (snd (snd (tpu_read_results dev results s))))
      = concat (map (\<lambda>k. [[CMD_READ_RESULT, RESULT_BASE + 2 * of_nat k],
                           [CMD_READ_RESULT, RESULT_BASE + 2 * of_nat k + 1]]) [0..<64])"
    using c by simp
  obtain results' where cpp: "fst (TPUDriver_readResults dev s) = Inr results'"
    "tx (snd (TPUDriver_readResults dev s))
           = tx s @ concat (map (\<lambda>k. [[CMD_READ_RESULT, RESULT_BASE + 2 * of_nat k],
                                        [CMD_READ_RESULT, RESULT_BASE + 2 * of_nat k + 1]]) [0..<64])"
    "n_rd (snd (TPUDriver_readResults dev s)) = n_rd s + 128"
    "\<forall>i j. i < MATRIX_SIZE \<and> j < MATRIX_SIZE \<longrightarrow>
             results' i j
               = fp16_to_float (halves (snd (rd_ret dev (n_rd s + 2 * (MATRIX_SIZE * i + j))))
                                       (snd (rd_ret dev (n_rd s + 2 * (MATRIX_SIZE * i + j) + 1))))"
    using TPUDriver_readResults_frames[OF assms, of s] by blast
  have cpp_sent: "drop (length (tx s)) (tx (snd (TPUDriver_readResults dev s)))
      = concat (map (\<lambda>k. [[CMD_READ_RESULT, RESULT_BASE + 2 * of_nat k],
                           [CMD_READ_RESULT, RESULT_BASE + 2 * of_nat k + 1]]) [0..<64])"
    using cpp(2) by simp
  note f = result_frames_facts[of RESULT_BASE]
  show ?thesis
    unfolding Let_def c_sent cpp_sent
    using c cpp(1,3,4) f by blast
qed


theorem read_results_calls_witness:
  "fst (tpu_read_results (responder 0x3C) (\<lambda>i j. 0) port0) = 0
   \<and> fst (snd (tpu_read_results (responder 0x3C) (\<lambda>i j. 0) port0)) 7 7 = 0x3F878000
   \<and> length (tx (snd (snd (tpu_read_results (responder 0x3C) (\<lambda>i j. 0) port0)))) = 128
   \<and> n_rd (snd (TPUDriver_readResults (responder 0x3C) port0)) = 128"
  using read_results_calls[of "responder 0x3C" "\<lambda>i j. 0" port0]
  by (simp add: Let_def responder_def port0_def fp16_to_float_def)

text \<open>
  Claim C1 as it was stated fails at the 33rd 16-bit read. The address is a
  \<^verbatim>\<open>uint8_t\<close> that starts at 192 and grows by 2 per element: after the 32 reads of
  rows 0 to 3 it has passed 254 and wrapped to 0, so element \<open>(4, 0)\<close> is read from the
  addresses 0 and 1, outside the result region. The 64 elements take 128 bytes; the
  result region, from 192 to 255, has 64.
\<close>

theorem read_results_calls_counterexample:
  "fst (tpu_read_results (responder 0x3C) (\<lambda>i j. 0) port0) = 0
   \<and> length (tx (snd (snd (tpu_read_results (responder 0x3C) (\<lambda>i j. 0) port0)))) = 128
   \<and> tx (snd (snd (tpu_read_results (responder 0x3C) (\<lambda>i j. 0) port0))) ! 62 = [CMD_READ_RESULT, 254]
   \<and> tx (snd (snd (tpu_read_results (responder 0x3C) (\<lambda>i j. 0) port0))) ! 64 = [CMD_READ_RESULT, 0]
   \<and> tx (snd (snd (tpu_read_results (responder 0x3C) (\<lambda>i j. 0) port0))) ! 65 = [CMD_READ_RESULT, 1]
   \<and> tx (snd (TPUDriver_readResults (responder 0x3C) port0)) ! 64 = [CMD_READ_RESULT, 0]
   \<and> tx (snd (TPUDriver_readResults (responder 0x3C) port0)) ! 65 = [CMD_READ_RESULT, 1]"
proof -
  have good: "\<forall>k. wr_ret (responder 0x3C) k 2 = 2" "\<forall>k. fst (rd_ret (responder 0x3C) k) = 1"
    by (simp_all add: responder_def)
  have L: "length (concat (map (\<lambda>k. [[CMD_READ_RESULT, RESULT_BASE + 2 * of_nat k],
                           [CMD_READ_RESULT, RESULT_BASE + 2 * of_nat k + 1]]) [0..<64])) = 128"
    "concat (map (\<lambda>k. [[CMD_READ_RESULT, RESULT_BASE + 2 * of_nat k],
                           [CMD_READ_RESULT, RESULT_BASE + 2 * of_nat k + 1]]) [0..<64]) ! 62
       = [CMD_READ_RESULT, 254]"
    "concat (map (\<lambda>k. [[CMD_READ_RESULT, RESULT_BASE + 2 * of_nat k],
                           [CMD_READ_RESULT, RESULT_BASE + 2 * of_nat k + 1]]) [0..<64]) ! 64
       = [CMD_READ_RESULT, 0]"
    "concat (map (\<lambda>k. [[CMD_READ_RESULT, RESULT_BASE + 2 * of_nat k],
                           [CMD_READ_RESULT, RESULT_BASE + 2 * of_nat k + 1]]) [0..<64]) ! 65
       = [CMD_READ_RESULT, 1]"
    by code_simp+
  have t0: "tx port0 = []" by (simp add: port0_def)
  show ?thesis
    using tpu_read_results_frames[OF good, of "\<lambda>i j. 0" port0]
      TPUDriver_readResults_frames[OF good, of port0] L
    unfolding t0 by auto
qed

subsection \<open>Writing the activation matrix\<close>

lemma tpu_write_byte_tx:
  "tx (snd (tpu_write_byte dev addr data s))
     = tx s @ [[if addr < 128 then CMD_WRITE_WEIGHT else CMD_WRITE_ACTIVATION, addr, data]]"
  by (simp add: tpu_write_byte_def serial_write_def serial_read_def Let_def split: prod.splits)

lemma TPUDriver_writeByte_tx:
  "tx (snd (TPUDriver_writeByte dev addr data s))
     = tx s @ [[if addr < 128 then CMD_WRITE_WEIGHT else CMD_WRITE_ACTIVATION, addr, data]]"
  by (simp add: TPUDriver_writeByte_def SerialPort_write_def SerialPort_read_def
      serial_write_def serial_read_def Let_def split: prod.splits sum.splits)

lemma activation_addr_succ:
  fixes addr :: byte
  assumes "even addr" and "128 \<le> addr"
  shows "128 \<le> addr + 1"
proof -
  have "even (unat addr)" using assms(1) odd_unat_byte[of addr] by simp
  then have "(addr + 1 < 128) = (addr < 128)" by (rule even_addr_succ_region)
  then show ?thesis using assms(2) by (simp add: not_less[symmetric])
qed

lemma tpu_write_fp16_activation:
  fixes addr :: byte
  assumes "even addr" and "128 \<le> addr"
  shows "\<exists>fs. tx (snd (tpu_write_fp16 dev addr v s)) = tx s @ fs
           \<and> (\<forall>f\<in>set fs. \<exists>a d. f = [CMD_WRITE_ACTIVATION, a, d] \<and> 128 \<le> a)"
proof -
  let ?low = "ucast (float_to_fp16 v AND 0xFF) :: byte"
  let ?high = "ucast (drop_bit 8 (float_to_fp16 v) AND 0xFF) :: byte"
  have a1: "128 \<le> addr + 1" using assms by (rule activation_addr_succ)
  have n: "\<not> addr < 128" "\<not> addr + 1 < 128" using assms(2) a1 by (simp_all add: not_less)
  have 1: "tx (snd (tpu_write_byte dev addr ?low s)) = tx s @ [[CMD_WRITE_ACTIVATION, addr, ?low]]"
    using n by (simp add: tpu_write_byte_tx)
  have 2: "tx (snd (tpu_write_byte dev (addr + 1) ?high s1))
      = tx s1 @ [[CMD_WRITE_ACTIVATION, addr + 1, ?high]]" for s1
    using n by (simp add: tpu_write_byte_tx)
  obtain r1 s1 where w1: "tpu_write_byte dev addr ?low s = (r1, s1)" by fastforce
  obtain r2 s2 where w2: "tpu_write_byte dev (addr + 1) ?high s1 = (r2, s2)" by fastforce
  have t1: "tx s1 = tx s @ [[CMD_WRITE_ACTIVATION, addr, ?low]]"
    using 1 w1 by simp
  have t2: "tx s2 = tx s @ [[CMD_WRITE_ACTIVATION, addr, ?low], [CMD_WRITE_ACTIVATION, addr + 1, ?high]]"
    using 2[of s1] w2 t1 by simp
  have "tx (snd (tpu_write_fp16 dev addr v s)) = (if r1 \<noteq> 0 then tx s1 else tx s2)"
    using assms(1) w1 w2 by (simp add: tpu_write_fp16_def even_addr_iff Let_def)
  then show ?thesis using t1 t2 assms(2) a1 by auto
qed


lemma byte_add_no_wrap:
  fixes addr :: byte
  assumes "unat addr + n < 256"
  shows "unat (addr + of_nat n) = unat addr + n"
  using assms by (simp add: unat_word_ariths unat_of_nat)

lemma activation_addr_step:
  fixes addr :: byte
  assumes "even addr" and "128 \<le> addr" and "unat addr + n < 256" and "even n"
  shows "even (addr + of_nat n)" and "128 \<le> addr + of_nat n"
proof -
  show "even (addr + of_nat n)" using assms(1,4) by simp
  have "unat (addr + of_nat n) = unat addr + n" using assms(3) by (rule byte_add_no_wrap)
  then show "128 \<le> addr + of_nat n"
    using assms(2) by (simp add: word_le_nat_alt)
qed

lemma tpu_write_activations_j_frames:
  "(j < MATRIX_SIZE \<longrightarrow> even addr \<and> 128 \<le> addr \<and> unat addr + 2 * (MATRIX_SIZE - j) \<le> 256) \<Longrightarrow>
    \<exists>fs. tx (snd (snd (tpu_write_activations_j dev activations i j addr s))) = tx s @ fs
      \<and> (\<forall>f\<in>set fs. \<exists>a d. f = [CMD_WRITE_ACTIVATION, a, d] \<and> 128 \<le> a)
      \<and> (fst (tpu_write_activations_j dev activations i j addr s) = 0 \<longrightarrow>
            fst (snd (tpu_write_activations_j dev activations i j addr s))
              = addr + 2 * of_nat (MATRIX_SIZE - j))"
proof (induction dev activations i j addr s rule: tpu_write_activations_j.induct)
  case (1 dev activations i j addr s)
  show ?case
  proof (cases "j < MATRIX_SIZE")
    case False
    then show ?thesis by (simp add: tpu_write_activations_j.simps)
  next
    case True
    note lt = True
    have ev: "even addr" and ge: "128 \<le> addr" and bd: "unat addr + 2 * (MATRIX_SIZE - j) \<le> 256"
      using "1.prems" lt by simp_all
    obtain r s1 where w: "tpu_write_fp16 dev addr (activations i j) s = (r, s1)" by fastforce
    obtain fs1 where f1: "tx s1 = tx s @ fs1"
      "\<forall>f\<in>set fs1. \<exists>a d. f = [CMD_WRITE_ACTIVATION, a, d] \<and> 128 \<le> a"
      using tpu_write_fp16_activation[OF ev ge, of dev "activations i j" s] w by auto
    show ?thesis
    proof (cases "r = 0")
      case False
      then have "tpu_write_activations_j dev activations i j addr s = (- 1, addr, s1)"
        using lt w by (subst tpu_write_activations_j.simps) simp
      then show ?thesis using f1 by simp
    next
      case True
      have nxt: "j + 1 < MATRIX_SIZE \<longrightarrow>
          even (addr + 2) \<and> 128 \<le> addr + 2 \<and> unat (addr + 2) + 2 * (MATRIX_SIZE - (j + 1)) \<le> 256"
      proof
        assume j1: "j + 1 < MATRIX_SIZE"
        then have b2: "unat addr + 2 < 256" using bd by simp
        have "even (addr + of_nat 2)" "128 \<le> addr + of_nat 2"
          using activation_addr_step[OF ev ge b2] by simp_all
        moreover have "unat (addr + of_nat 2) = unat addr + 2"
          using b2 by (rule byte_add_no_wrap)
        ultimately show "even (addr + 2) \<and> 128 \<le> addr + 2
            \<and> unat (addr + 2) + 2 * (MATRIX_SIZE - (j + 1)) \<le> 256"
          using bd j1 by simp
      qed
      obtain fs2 where f2:
        "tx (snd (snd (tpu_write_activations_j dev activations i (j + 1) (addr + 2) s1))) = tx s1 @ fs2"
        "\<forall>f\<in>set fs2. \<exists>a d. f = [CMD_WRITE_ACTIVATION, a, d] \<and> 128 \<le> a"
        "fst (tpu_write_activations_j dev activations i (j + 1) (addr + 2) s1) = 0 \<longrightarrow>
            fst (snd (tpu_write_activations_j dev activations i (j + 1) (addr + 2) s1))
              = addr + 2 + 2 * of_nat (MATRIX_SIZE - (j + 1))"
        using "1.IH"[OF lt w[symmetric] _ nxt] True by blast
      have u: "tpu_write_activations_j dev activations i j addr s
          = tpu_write_activations_j dev activations i (j + 1) (addr + 2) s1"
        using lt w True by (subst tpu_write_activations_j.simps) simp
      have n: "MATRIX_SIZE - j = Suc (MATRIX_SIZE - (j + 1))" using lt by simp
      have a: "addr + 2 + 2 * of_nat (MATRIX_SIZE - (j + 1)) = addr + 2 * of_nat (MATRIX_SIZE - j)"
        unfolding n by simp
      have "tx (snd (snd (tpu_write_activations_j dev activations i j addr s))) = tx s @ (fs1 @ fs2)"
        unfolding u using f1(1) f2(1) by simp
      moreover have "\<forall>f\<in>set (fs1 @ fs2). \<exists>a d. f = [CMD_WRITE_ACTIVATION, a, d] \<and> 128 \<le> a"
        using f1(2) f2(2) by auto
      moreover have "fst (tpu_write_activations_j dev activations i j addr s) = 0 \<longrightarrow>
            fst (snd (tpu_write_activations_j dev activations i j addr s))
              = addr + 2 * of_nat (MATRIX_SIZE - j)"
        unfolding u using f2(3) a by simp
      ultimately show ?thesis by blast
    qed
  qed
qed


lemma tpu_write_activations_i_frames:
  "(i < MATRIX_SIZE \<longrightarrow>
      even addr \<and> 128 \<le> addr \<and> unat addr + 2 * (MATRIX_SIZE * (MATRIX_SIZE - i)) \<le> 256) \<Longrightarrow>
    \<exists>fs. tx (snd (tpu_write_activations_i dev activations i addr s)) = tx s @ fs
      \<and> (\<forall>f\<in>set fs. \<exists>a d. f = [CMD_WRITE_ACTIVATION, a, d] \<and> 128 \<le> a)"
proof (induction dev activations i addr s rule: tpu_write_activations_i.induct)
  case (1 dev activations i addr s)
  show ?case
  proof (cases "i < MATRIX_SIZE")
    case False
    then show ?thesis by (simp add: tpu_write_activations_i.simps)
  next
    case True
    note lt = True
    have ev: "even addr" and ge: "128 \<le> addr"
      and bd: "unat addr + 2 * (MATRIX_SIZE * (MATRIX_SIZE - i)) \<le> 256"
      using "1.prems" lt by simp_all
    have row_pre: "0 < MATRIX_SIZE \<longrightarrow>
        even addr \<and> 128 \<le> addr \<and> unat addr + 2 * (MATRIX_SIZE - 0) \<le> 256"
      using ev ge bd lt by simp
    obtain r addr1 s1 where w: "tpu_write_activations_j dev activations i 0 addr s = (r, addr1, s1)"
      by (metis prod_cases3)
    obtain fs1 where f1: "tx s1 = tx s @ fs1"
      "\<forall>f\<in>set fs1. \<exists>a d. f = [CMD_WRITE_ACTIVATION, a, d] \<and> 128 \<le> a"
      "r = 0 \<longrightarrow> addr1 = addr + 2 * of_nat (MATRIX_SIZE - 0)"
      using tpu_write_activations_j_frames[OF row_pre, of dev activations i s] w by auto
    show ?thesis
    proof (cases "r = 0")
      case False
      then have "tpu_write_activations_i dev activations i addr s = (- 1, s1)"
        using lt w by (subst tpu_write_activations_i.simps) simp
      then show ?thesis using f1 by simp
    next
      case True
      then have a1: "addr1 = addr + 16" using f1(3) by simp
      have nxt: "i + 1 < MATRIX_SIZE \<longrightarrow>
          even addr1 \<and> 128 \<le> addr1
          \<and> unat addr1 + 2 * (MATRIX_SIZE * (MATRIX_SIZE - (i + 1))) \<le> 256"
      proof
        assume i1: "i + 1 < MATRIX_SIZE"
        then have b2: "unat addr + 16 < 256" using bd by simp
        have "even (addr + of_nat 16)" "128 \<le> addr + of_nat 16"
          using activation_addr_step[OF ev ge b2] by simp_all
        moreover have "unat (addr + of_nat 16) = unat addr + 16"
          using b2 by (rule byte_add_no_wrap)
        ultimately show "even addr1 \<and> 128 \<le> addr1
            \<and> unat addr1 + 2 * (MATRIX_SIZE * (MATRIX_SIZE - (i + 1))) \<le> 256"
          unfolding a1 using bd i1 by simp
      qed
      obtain fs2 where f2:
        "tx (snd (tpu_write_activations_i dev activations (i + 1) addr1 s1)) = tx s1 @ fs2"
        "\<forall>f\<in>set fs2. \<exists>a d. f = [CMD_WRITE_ACTIVATION, a, d] \<and> 128 \<le> a"
        using "1.IH"[OF lt w[symmetric] refl _ nxt] True by blast
      have u: "tpu_write_activations_i dev activations i addr s
          = tpu_write_activations_i dev activations (i + 1) addr1 s1"
        using lt w True by (subst tpu_write_activations_i.simps) simp
      have "tx (snd (tpu_write_activations_i dev activations i addr s)) = tx s @ (fs1 @ fs2)"
        unfolding u using f1(1) f2(1) by simp
      moreover have "\<forall>f\<in>set (fs1 @ fs2). \<exists>a d. f = [CMD_WRITE_ACTIVATION, a, d] \<and> 128 \<le> a"
        using f1(2) f2(2) by auto
      ultimately show ?thesis by blast
    qed
  qed
qed

lemma tpu_write_activations_frames:
  "\<exists>fs. tx (snd (tpu_write_activations dev activations s)) = tx s @ fs
      \<and> (\<forall>f\<in>set fs. \<exists>a d. f = [CMD_WRITE_ACTIVATION, a, d] \<and> 128 \<le> a)"
  unfolding tpu_write_activations_def
  by (rule tpu_write_activations_i_frames) simp

lemma TPUDriver_writeFP16_activation:
  fixes addr :: byte
  assumes "even addr" and "128 \<le> addr"
  shows "\<exists>fs. tx (snd (TPUDriver_writeFP16 dev addr v s)) = tx s @ fs
           \<and> (\<forall>f\<in>set fs. \<exists>a d. f = [CMD_WRITE_ACTIVATION, a, d] \<and> 128 \<le> a)"
proof -
  let ?low = "ucast (FP16_fromFloat v AND 0xFF) :: byte"
  let ?high = "ucast (drop_bit 8 (FP16_fromFloat v) AND 0xFF) :: byte"
  have a1: "128 \<le> addr + 1" using assms by (rule activation_addr_succ)
  have n: "\<not> addr < 128" "\<not> addr + 1 < 128" using assms(2) a1 by (simp_all add: not_less)
  obtain r1 s1 where w1: "TPUDriver_writeByte dev addr ?low s = (r1, s1)" by fastforce
  obtain r2 s2 where w2: "TPUDriver_writeByte dev (addr + 1) ?high s1 = (r2, s2)" by fastforce
  have t1: "tx s1 = tx s @ [[CMD_WRITE_ACTIVATION, addr, ?low]]"
    using TPUDriver_writeByte_tx[of dev addr ?low s] w1 n by simp
  have t2: "tx s2 = tx s @ [[CMD_WRITE_ACTIVATION, addr, ?low], [CMD_WRITE_ACTIVATION, addr + 1, ?high]]"
    using TPUDriver_writeByte_tx[of dev "addr + 1" ?high s1] w2 t1 n by simp
  have "tx (snd (TPUDriver_writeFP16 dev addr v s)) = (if isl r1 then tx s1 else tx s2)"
    using assms(1) w1 w2
    by (cases r1) (simp_all add: TPUDriver_writeFP16_def even_addr_iff Let_def)
  then show ?thesis using t1 t2 assms(2) a1 by auto
qed

lemma TPUDriver_writeActivations_j_frames:
  "(j < MATRIX_SIZE \<longrightarrow> even addr \<and> 128 \<le> addr \<and> unat addr + 2 * (MATRIX_SIZE - j) \<le> 256) \<Longrightarrow>
    \<exists>fs. tx (snd (TPUDriver_writeActivations_j dev activations i j addr s)) = tx s @ fs
      \<and> (\<forall>f\<in>set fs. \<exists>a d. f = [CMD_WRITE_ACTIVATION, a, d] \<and> 128 \<le> a)
      \<and> (\<forall>addr'. fst (TPUDriver_writeActivations_j dev activations i j addr s) = Inr addr' \<longrightarrow>
            addr' = addr + 2 * of_nat (MATRIX_SIZE - j))"
proof (induction dev activations i j addr s rule: TPUDriver_writeActivations_j.induct)
  case (1 dev activations i j addr s)
  show ?case
  proof (cases "j < MATRIX_SIZE")
    case False
    then show ?thesis by (simp add: TPUDriver_writeActivations_j.simps)
  next
    case True
    note lt = True
    have ev: "even addr" and ge: "128 \<le> addr" and bd: "unat addr + 2 * (MATRIX_SIZE - j) \<le> 256"
      using "1.prems" lt by simp_all
    obtain r s1 where w: "TPUDriver_writeFP16 dev addr (activations i j) s = (r, s1)" by fastforce
    obtain fs1 where f1: "tx s1 = tx s @ fs1"
      "\<forall>f\<in>set fs1. \<exists>a d. f = [CMD_WRITE_ACTIVATION, a, d] \<and> 128 \<le> a"
      using TPUDriver_writeFP16_activation[OF ev ge, of dev "activations i j" s] w by auto
    show ?thesis
    proof (cases r)
      case (Inl e)
      then have "TPUDriver_writeActivations_j dev activations i j addr s = (Inl e, s1)"
        using lt w by (subst TPUDriver_writeActivations_j.simps) simp
      then show ?thesis using f1 by simp
    next
      case (Inr u)
      have nxt: "j + 1 < MATRIX_SIZE \<longrightarrow>
          even (addr + 2) \<and> 128 \<le> addr + 2 \<and> unat (addr + 2) + 2 * (MATRIX_SIZE - (j + 1)) \<le> 256"
      proof
        assume j1: "j + 1 < MATRIX_SIZE"
        then have b2: "unat addr + 2 < 256" using bd by simp
        have "even (addr + of_nat 2)" "128 \<le> addr + of_nat 2"
          using activation_addr_step[OF ev ge b2] by simp_all
        moreover have "unat (addr + of_nat 2) = unat addr + 2"
          using b2 by (rule byte_add_no_wrap)
        ultimately show "even (addr + 2) \<and> 128 \<le> addr + 2
            \<and> unat (addr + 2) + 2 * (MATRIX_SIZE - (j + 1)) \<le> 256"
          using bd j1 by simp
      qed
      have w': "(Inr u, s1) = TPUDriver_writeFP16 dev addr (activations i j) s"
        using w Inr by simp
      obtain fs2 where f2:
        "tx (snd (TPUDriver_writeActivations_j dev activations i (j + 1) (addr + 2) s1)) = tx s1 @ fs2"
        "\<forall>f\<in>set fs2. \<exists>a d. f = [CMD_WRITE_ACTIVATION, a, d] \<and> 128 \<le> a"
        "\<forall>addr'. fst (TPUDriver_writeActivations_j dev activations i (j + 1) (addr + 2) s1) = Inr addr' \<longrightarrow>
            addr' = addr + 2 + 2 * of_nat (MATRIX_SIZE - (j + 1))"
        using "1.IH"[OF lt w' refl nxt] by blast
      have u: "TPUDriver_writeActivations_j dev activations i j addr s
          = TPUDriver_writeActivations_j dev activations i (j + 1) (addr + 2) s1"
        using lt w Inr by (subst TPUDriver_writeActivations_j.simps) simp
      have n: "MATRIX_SIZE - j = Suc (MATRIX_SIZE - (j + 1))" using lt by simp
      have a: "addr + 2 + 2 * of_nat (MATRIX_SIZE - (j + 1)) = addr + 2 * of_nat (MATRIX_SIZE - j)"
        unfolding n by simp
      have "tx (snd (TPUDriver_writeActivations_j dev activations i j addr s)) = tx s @ (fs1 @ fs2)"
        unfolding u using f1(1) f2(1) by simp
      moreover have "\<forall>f\<in>set (fs1 @ fs2). \<exists>a d. f = [CMD_WRITE_ACTIVATION, a, d] \<and> 128 \<le> a"
        using f1(2) f2(2) by auto
      moreover have "\<forall>addr'. fst (TPUDriver_writeActivations_j dev activations i j addr s) = Inr addr' \<longrightarrow>
            addr' = addr + 2 * of_nat (MATRIX_SIZE - j)"
        unfolding u using f2(3) unfolding a by blast
      ultimately show ?thesis by blast
    qed
  qed
qed

lemma TPUDriver_writeActivations_i_frames:
  "(i < MATRIX_SIZE \<longrightarrow>
      even addr \<and> 128 \<le> addr \<and> unat addr + 2 * (MATRIX_SIZE * (MATRIX_SIZE - i)) \<le> 256) \<Longrightarrow>
    \<exists>fs. tx (snd (TPUDriver_writeActivations_i dev activations i addr s)) = tx s @ fs
      \<and> (\<forall>f\<in>set fs. \<exists>a d. f = [CMD_WRITE_ACTIVATION, a, d] \<and> 128 \<le> a)"
proof (induction dev activations i addr s rule: TPUDriver_writeActivations_i.induct)
  case (1 dev activations i addr s)
  show ?case
  proof (cases "i < MATRIX_SIZE")
    case False
    then show ?thesis by (simp add: TPUDriver_writeActivations_i.simps)
  next
    case True
    note lt = True
    have ev: "even addr" and ge: "128 \<le> addr"
      and bd: "unat addr + 2 * (MATRIX_SIZE * (MATRIX_SIZE - i)) \<le> 256"
      using "1.prems" lt by simp_all
    have row_pre: "0 < MATRIX_SIZE \<longrightarrow>
        even addr \<and> 128 \<le> addr \<and> unat addr + 2 * (MATRIX_SIZE - 0) \<le> 256"
      using ev ge bd lt by simp
    obtain r s1 where w: "TPUDriver_writeActivations_j dev activations i 0 addr s = (r, s1)"
      by fastforce
    obtain fs1 where f1: "tx s1 = tx s @ fs1"
      "\<forall>f\<in>set fs1. \<exists>a d. f = [CMD_WRITE_ACTIVATION, a, d] \<and> 128 \<le> a"
      "\<forall>addr'. r = Inr addr' \<longrightarrow> addr' = addr + 2 * of_nat (MATRIX_SIZE - 0)"
      using TPUDriver_writeActivations_j_frames[OF row_pre, of dev activations i s] w by auto
    show ?thesis
    proof (cases r)
      case (Inl e)
      then have "TPUDriver_writeActivations_i dev activations i addr s = (Inl e, s1)"
        using lt w by (subst TPUDriver_writeActivations_i.simps) simp
      then show ?thesis using f1 by simp
    next
      case (Inr addr1)
      then have a1: "addr1 = addr + 16" using f1(3) by simp
      have nxt: "i + 1 < MATRIX_SIZE \<longrightarrow>
          even addr1 \<and> 128 \<le> addr1
          \<and> unat addr1 + 2 * (MATRIX_SIZE * (MATRIX_SIZE - (i + 1))) \<le> 256"
      proof
        assume i1: "i + 1 < MATRIX_SIZE"
        then have b2: "unat addr + 16 < 256" using bd by simp
        have "even (addr + of_nat 16)" "128 \<le> addr + of_nat 16"
          using activation_addr_step[OF ev ge b2] by simp_all
        moreover have "unat (addr + of_nat 16) = unat addr + 16"
          using b2 by (rule byte_add_no_wrap)
        ultimately show "even addr1 \<and> 128 \<le> addr1
            \<and> unat addr1 + 2 * (MATRIX_SIZE * (MATRIX_SIZE - (i + 1))) \<le> 256"
          unfolding a1 using bd i1 by simp
      qed
      have w': "(Inr addr1, s1) = TPUDriver_writeActivations_j dev activations i 0 addr s"
        using w Inr by simp
      obtain fs2 where f2:
        "tx (snd (TPUDriver_writeActivations_i dev activations (i + 1) addr1 s1)) = tx s1 @ fs2"
        "\<forall>f\<in>set fs2. \<exists>a d. f = [CMD_WRITE_ACTIVATION, a, d] \<and> 128 \<le> a"
        using "1.IH"[OF lt w' refl nxt] by blast
      have u: "TPUDriver_writeActivations_i dev activations i addr s
          = TPUDriver_writeActivations_i dev activations (i + 1) addr1 s1"
        using lt w Inr by (subst TPUDriver_writeActivations_i.simps) simp
      have "tx (snd (TPUDriver_writeActivations_i dev activations i addr s)) = tx s @ (fs1 @ fs2)"
        unfolding u using f1(1) f2(1) by simp
      moreover have "\<forall>f\<in>set (fs1 @ fs2). \<exists>a d. f = [CMD_WRITE_ACTIVATION, a, d] \<and> 128 \<le> a"
        using f1(2) f2(2) by auto
      ultimately show ?thesis by blast
    qed
  qed
qed

lemma TPUDriver_writeActivations_frames:
  "\<exists>fs. tx (snd (TPUDriver_writeActivations dev activations s)) = tx s @ fs
      \<and> (\<forall>f\<in>set fs. \<exists>a d. f = [CMD_WRITE_ACTIVATION, a, d] \<and> 128 \<le> a)"
  unfolding TPUDriver_writeActivations_def
  by (rule TPUDriver_writeActivations_i_frames) simp

lemma tpu_write_byte_ok:
  assumes "wr_ret dev (length (tx s)) 3 = 3" and "rd_ret dev (n_rd s) = (1, 0x4B)"
  shows "fst (tpu_write_byte dev addr data s) = 0"
  using assms
  by (simp add: tpu_write_byte_def serial_write_def serial_read_def eval_nat_numeral)

lemma tpu_write_fp16_ok:
  assumes wr: "\<forall>k. wr_ret dev k 3 = 3" and rd: "\<forall>k. rd_ret dev k = (1, 0x4B)"
    and ev: "even addr"
  shows "\<exists>s'. tpu_write_fp16 dev addr v s = (0, s')
           \<and> tx s' = tx s @
                [[if addr < 128 then CMD_WRITE_WEIGHT else CMD_WRITE_ACTIVATION, addr,
                  ucast (float_to_fp16 v AND 0xFF)],
                 [if addr + 1 < 128 then CMD_WRITE_WEIGHT else CMD_WRITE_ACTIVATION, addr + 1,
                  ucast (drop_bit 8 (float_to_fp16 v) AND 0xFF)]]"
proof -
  let ?low = "ucast (float_to_fp16 v AND 0xFF) :: byte"
  let ?high = "ucast (drop_bit 8 (float_to_fp16 v) AND 0xFF) :: byte"
  obtain r1 s1 where w1: "tpu_write_byte dev addr ?low s = (r1, s1)" by fastforce
  obtain r2 s2 where w2: "tpu_write_byte dev (addr + 1) ?high s1 = (r2, s2)" by fastforce
  have r1: "r1 = 0" using tpu_write_byte_ok[of dev s addr ?low] wr rd w1 by simp
  have r2: "r2 = 0" using tpu_write_byte_ok[of dev s1 "addr + 1" ?high] wr rd w2 by simp
  have t1: "tx s1 = tx s @ [[if addr < 128 then CMD_WRITE_WEIGHT else CMD_WRITE_ACTIVATION, addr, ?low]]"
    using tpu_write_byte_tx[of dev addr ?low s] w1 by simp
  have t2: "tx s2 = tx s1 @ [[if addr + 1 < 128 then CMD_WRITE_WEIGHT else CMD_WRITE_ACTIVATION,
                               addr + 1, ?high]]"
    using tpu_write_byte_tx[of dev "addr + 1" ?high s1] w2 by simp
  have "tpu_write_fp16 dev addr v s = (0, s2)"
    using ev w1 w2 r1 r2 by (simp add: tpu_write_fp16_def even_addr_iff Let_def)
  then show ?thesis using t1 t2 by simp
qed

lemma tpu_write_activations_j_ok:
  "\<forall>k. wr_ret dev k 3 = 3 \<Longrightarrow> \<forall>k. rd_ret dev k = (1, 0x4B) \<Longrightarrow> even addr \<Longrightarrow> j \<le> MATRIX_SIZE \<Longrightarrow>
    \<exists>s'. tpu_write_activations_j dev activations i j addr s
          = (0, addr + 2 * of_nat (MATRIX_SIZE - j), s')
      \<and> tx s' = tx s @ concat (map (\<lambda>k.
            [[if addr + 2 * of_nat k < 128 then CMD_WRITE_WEIGHT else CMD_WRITE_ACTIVATION,
              addr + 2 * of_nat k, ucast (float_to_fp16 (activations i (j + k)) AND 0xFF)],
             [if addr + 2 * of_nat k + 1 < 128 then CMD_WRITE_WEIGHT else CMD_WRITE_ACTIVATION,
              addr + 2 * of_nat k + 1,
              ucast (drop_bit 8 (float_to_fp16 (activations i (j + k))) AND 0xFF)]])
          [0..<MATRIX_SIZE - j])"
proof (induction dev activations i j addr s rule: tpu_write_activations_j.induct)
  case (1 dev activations i j addr s)
  note wr = "1.prems"(1) and rd = "1.prems"(2) and ev = "1.prems"(3) and le = "1.prems"(4)
  show ?case
  proof (cases "j < MATRIX_SIZE")
    case False
    then have "j = MATRIX_SIZE" using le by simp
    then show ?thesis by (simp add: tpu_write_activations_j.simps)
  next
    case True
    note lt = True
    obtain s1 where f: "tpu_write_fp16 dev addr (activations i j) s = (0, s1)"
      "tx s1 = tx s @
                [[if addr < 128 then CMD_WRITE_WEIGHT else CMD_WRITE_ACTIVATION, addr,
                  ucast (float_to_fp16 (activations i j) AND 0xFF)],
                 [if addr + 1 < 128 then CMD_WRITE_WEIGHT else CMD_WRITE_ACTIVATION, addr + 1,
                  ucast (drop_bit 8 (float_to_fp16 (activations i j)) AND 0xFF)]]"
      using tpu_write_fp16_ok[OF wr rd ev, where s = s and v = "activations i j"] by blast
    have ev2: "even (addr + 2)" using ev by simp
    have le2: "j + 1 \<le> MATRIX_SIZE" using lt by simp
    obtain s' where ih:
      "tpu_write_activations_j dev activations i (j + 1) (addr + 2) s1
         = (0, addr + 2 + 2 * of_nat (MATRIX_SIZE - (j + 1)), s')"
      "tx s' = tx s1 @ concat (map (\<lambda>k.
            [[if addr + 2 + 2 * of_nat k < 128 then CMD_WRITE_WEIGHT else CMD_WRITE_ACTIVATION,
              addr + 2 + 2 * of_nat k, ucast (float_to_fp16 (activations i (j + 1 + k)) AND 0xFF)],
             [if addr + 2 + 2 * of_nat k + 1 < 128 then CMD_WRITE_WEIGHT else CMD_WRITE_ACTIVATION,
              addr + 2 + 2 * of_nat k + 1,
              ucast (drop_bit 8 (float_to_fp16 (activations i (j + 1 + k))) AND 0xFF)]])
          [0..<MATRIX_SIZE - (j + 1)])"
      using "1.IH"[OF lt f(1)[symmetric] _ wr rd ev2 le2] by blast
    have n: "MATRIX_SIZE - j = Suc (MATRIX_SIZE - (j + 1))" using lt by simp
    have a: "addr + 2 + 2 * of_nat (MATRIX_SIZE - (j + 1)) = addr + 2 * of_nat (MATRIX_SIZE - j)"
      unfolding n by simp
    have r: "tpu_write_activations_j dev activations i j addr s
        = (0, addr + 2 * of_nat (MATRIX_SIZE - j), s')"
      using lt f(1) ih(1) a by (subst tpu_write_activations_j.simps) simp
    have t: "tx s' = tx s @ concat (map (\<lambda>k.
            [[if addr + 2 * of_nat k < 128 then CMD_WRITE_WEIGHT else CMD_WRITE_ACTIVATION,
              addr + 2 * of_nat k, ucast (float_to_fp16 (activations i (j + k)) AND 0xFF)],
             [if addr + 2 * of_nat k + 1 < 128 then CMD_WRITE_WEIGHT else CMD_WRITE_ACTIVATION,
              addr + 2 * of_nat k + 1,
              ucast (drop_bit 8 (float_to_fp16 (activations i (j + k))) AND 0xFF)]])
          [0..<MATRIX_SIZE - j])"
      unfolding n concat_map_upt_Suc ih(2) f(2) by (simp add: algebra_simps)
    show ?thesis using r t by blast
  qed
qed


lemma tpu_write_activations_i_ok:
  "\<forall>k. wr_ret dev k 3 = 3 \<Longrightarrow> \<forall>k. rd_ret dev k = (1, 0x4B) \<Longrightarrow> even addr \<Longrightarrow> i \<le> MATRIX_SIZE \<Longrightarrow>
    \<exists>s'. tpu_write_activations_i dev activations i addr s = (0, s')
      \<and> tx s' = tx s @ concat (map (\<lambda>k.
            [[if addr + 2 * of_nat k < 128 then CMD_WRITE_WEIGHT else CMD_WRITE_ACTIVATION,
              addr + 2 * of_nat k,
              ucast (float_to_fp16 (activations (i + k div MATRIX_SIZE) (k mod MATRIX_SIZE)) AND 0xFF)],
             [if addr + 2 * of_nat k + 1 < 128 then CMD_WRITE_WEIGHT else CMD_WRITE_ACTIVATION,
              addr + 2 * of_nat k + 1,
              ucast (drop_bit 8 (float_to_fp16 (activations (i + k div MATRIX_SIZE) (k mod MATRIX_SIZE)))
                       AND 0xFF)]])
          [0..<MATRIX_SIZE * (MATRIX_SIZE - i)])"
proof (induction dev activations i addr s rule: tpu_write_activations_i.induct)
  case (1 dev activations i addr s)
  note wr = "1.prems"(1) and rd = "1.prems"(2) and ev = "1.prems"(3) and le = "1.prems"(4)
  show ?case
  proof (cases "i < MATRIX_SIZE")
    case False
    then have "i = MATRIX_SIZE" using le by simp
    then show ?thesis by (simp add: tpu_write_activations_i.simps)
  next
    case True
    note lt = True
    let ?F = "\<lambda>(a :: byte) (k :: nat) (v :: float).
            [[if a + 2 * of_nat k < 128 then CMD_WRITE_WEIGHT else CMD_WRITE_ACTIVATION,
              a + 2 * of_nat k, ucast (float_to_fp16 v AND 0xFF) :: byte],
             [if a + 2 * of_nat k + 1 < 128 then CMD_WRITE_WEIGHT else CMD_WRITE_ACTIVATION,
              a + 2 * of_nat k + 1, ucast (drop_bit 8 (float_to_fp16 v) AND 0xFF)]]"
    obtain s1 where row:
      "tpu_write_activations_j dev activations i 0 addr s = (0, addr + 2 * of_nat (MATRIX_SIZE - 0), s1)"
      "tx s1 = tx s @ concat (map (\<lambda>k. ?F addr k (activations i (0 + k))) [0..<MATRIX_SIZE - 0])"
      using tpu_write_activations_j_ok[OF wr rd ev, where j = 0 and i = i and activations = activations
          and s = s]
      by auto
    have row1: "tpu_write_activations_j dev activations i 0 addr s = (0, addr + 16, s1)"
      using row(1) by simp
    have ev2: "even (addr + 16)" using ev by simp
    have le2: "i + 1 \<le> MATRIX_SIZE" using lt by simp
    obtain s' where ih:
      "tpu_write_activations_i dev activations (i + 1) (addr + 16) s1 = (0, s')"
      "tx s' = tx s1 @ concat (map (\<lambda>k. ?F (addr + 16) k
            (activations (i + 1 + k div MATRIX_SIZE) (k mod MATRIX_SIZE)))
          [0..<MATRIX_SIZE * (MATRIX_SIZE - (i + 1))])"
      using "1.IH"[OF lt row1[symmetric] refl _ wr rd ev2 le2] by auto
    have n: "MATRIX_SIZE * (MATRIX_SIZE - i) = MATRIX_SIZE + MATRIX_SIZE * (MATRIX_SIZE - (i + 1))"
      using lt by simp
    have r: "tpu_write_activations_i dev activations i addr s = (0, s')"
      using lt row1 ih(1) by (subst tpu_write_activations_i.simps) simp
    have first: "map (\<lambda>k. ?F addr k (activations (i + k div MATRIX_SIZE) (k mod MATRIX_SIZE)))
          [0..<MATRIX_SIZE]
        = map (\<lambda>k. ?F addr k (activations i (0 + k))) [0..<MATRIX_SIZE]"
      by (rule map_cong) simp_all
    have rest: "(\<lambda>k. ?F addr (k + MATRIX_SIZE)
              (activations (i + (k + MATRIX_SIZE) div MATRIX_SIZE) ((k + MATRIX_SIZE) mod MATRIX_SIZE)))
        = (\<lambda>k. ?F (addr + 16) k (activations (i + 1 + k div MATRIX_SIZE) (k mod MATRIX_SIZE)))"
    proof (rule ext)
      fix k :: nat
      have d: "(k + MATRIX_SIZE) div MATRIX_SIZE = 1 + k div MATRIX_SIZE"
        "(k + MATRIX_SIZE) mod MATRIX_SIZE = k mod MATRIX_SIZE" by simp_all
      have a: "addr + 2 * of_nat (k + MATRIX_SIZE) = addr + 16 + 2 * of_nat k" by simp
      show "?F addr (k + MATRIX_SIZE)
              (activations (i + (k + MATRIX_SIZE) div MATRIX_SIZE) ((k + MATRIX_SIZE) mod MATRIX_SIZE))
        = ?F (addr + 16) k (activations (i + 1 + k div MATRIX_SIZE) (k mod MATRIX_SIZE))"
        unfolding d a by (simp only: add.assoc)
    qed
    have t: "tx s' = tx s @ concat (map (\<lambda>k. ?F addr k
            (activations (i + k div MATRIX_SIZE) (k mod MATRIX_SIZE)))
          [0..<MATRIX_SIZE * (MATRIX_SIZE - i)])"
      unfolding n concat_map_upt_add first rest ih(2) row(2) by simp
    show ?thesis using r t by blast
  qed
qed

lemma TPUDriver_writeByte_ok:
  assumes "wr_ret dev (length (tx s)) 3 = 3" and "rd_ret dev (n_rd s) = (1, 0x4B)"
  shows "fst (TPUDriver_writeByte dev addr data s) = Inr ()"
  using assms
  by (simp add: TPUDriver_writeByte_def SerialPort_write_def SerialPort_read_def
      serial_write_def serial_read_def eval_nat_numeral)

lemma TPUDriver_writeFP16_ok:
  assumes wr: "\<forall>k. wr_ret dev k 3 = 3" and rd: "\<forall>k. rd_ret dev k = (1, 0x4B)"
    and ev: "even addr"
  shows "\<exists>s'. TPUDriver_writeFP16 dev addr v s = (Inr (), s')
           \<and> tx s' = tx s @
                [[if addr < 128 then CMD_WRITE_WEIGHT else CMD_WRITE_ACTIVATION, addr,
                  ucast (float_to_fp16 v AND 0xFF)],
                 [if addr + 1 < 128 then CMD_WRITE_WEIGHT else CMD_WRITE_ACTIVATION, addr + 1,
                  ucast (drop_bit 8 (float_to_fp16 v) AND 0xFF)]]"
proof -
  let ?low = "ucast (float_to_fp16 v AND 0xFF) :: byte"
  let ?high = "ucast (drop_bit 8 (float_to_fp16 v) AND 0xFF) :: byte"
  obtain r1 s1 where w1: "TPUDriver_writeByte dev addr ?low s = (r1, s1)" by fastforce
  obtain r2 s2 where w2: "TPUDriver_writeByte dev (addr + 1) ?high s1 = (r2, s2)" by fastforce
  have r1: "r1 = Inr ()" using TPUDriver_writeByte_ok[of dev s addr ?low] wr rd w1 by simp
  have r2: "r2 = Inr ()" using TPUDriver_writeByte_ok[of dev s1 "addr + 1" ?high] wr rd w2 by simp
  have t1: "tx s1 = tx s @ [[if addr < 128 then CMD_WRITE_WEIGHT else CMD_WRITE_ACTIVATION, addr, ?low]]"
    using TPUDriver_writeByte_tx[of dev addr ?low s] w1 by simp
  have t2: "tx s2 = tx s1 @ [[if addr + 1 < 128 then CMD_WRITE_WEIGHT else CMD_WRITE_ACTIVATION,
                               addr + 1, ?high]]"
    using TPUDriver_writeByte_tx[of dev "addr + 1" ?high s1] w2 by simp
  have "TPUDriver_writeFP16 dev addr v s = (Inr (), s2)"
    using ev w1 w2 r1 r2
    by (simp add: TPUDriver_writeFP16_def even_addr_iff Let_def FP16_fromFloat_eq)
  then show ?thesis using t1 t2 by simp
qed

lemma TPUDriver_writeActivations_j_ok:
  "\<forall>k. wr_ret dev k 3 = 3 \<Longrightarrow> \<forall>k. rd_ret dev k = (1, 0x4B) \<Longrightarrow> even addr \<Longrightarrow> j \<le> MATRIX_SIZE \<Longrightarrow>
    \<exists>s'. TPUDriver_writeActivations_j dev activations i j addr s
          = (Inr (addr + 2 * of_nat (MATRIX_SIZE - j)), s')
      \<and> tx s' = tx s @ concat (map (\<lambda>k.
            [[if addr + 2 * of_nat k < 128 then CMD_WRITE_WEIGHT else CMD_WRITE_ACTIVATION,
              addr + 2 * of_nat k, ucast (float_to_fp16 (activations i (j + k)) AND 0xFF)],
             [if addr + 2 * of_nat k + 1 < 128 then CMD_WRITE_WEIGHT else CMD_WRITE_ACTIVATION,
              addr + 2 * of_nat k + 1,
              ucast (drop_bit 8 (float_to_fp16 (activations i (j + k))) AND 0xFF)]])
          [0..<MATRIX_SIZE - j])"
proof (induction dev activations i j addr s rule: TPUDriver_writeActivations_j.induct)
  case (1 dev activations i j addr s)
  note wr = "1.prems"(1) and rd = "1.prems"(2) and ev = "1.prems"(3) and le = "1.prems"(4)
  show ?case
  proof (cases "j < MATRIX_SIZE")
    case False
    then have "j = MATRIX_SIZE" using le by simp
    then show ?thesis by (simp add: TPUDriver_writeActivations_j.simps)
  next
    case True
    note lt = True
    obtain s1 where f: "TPUDriver_writeFP16 dev addr (activations i j) s = (Inr (), s1)"
      "tx s1 = tx s @
                [[if addr < 128 then CMD_WRITE_WEIGHT else CMD_WRITE_ACTIVATION, addr,
                  ucast (float_to_fp16 (activations i j) AND 0xFF)],
                 [if addr + 1 < 128 then CMD_WRITE_WEIGHT else CMD_WRITE_ACTIVATION, addr + 1,
                  ucast (drop_bit 8 (float_to_fp16 (activations i j)) AND 0xFF)]]"
      using TPUDriver_writeFP16_ok[OF wr rd ev, where s = s and v = "activations i j"] by blast
    have ev2: "even (addr + 2)" using ev by simp
    have le2: "j + 1 \<le> MATRIX_SIZE" using lt by simp
    obtain s' where ih:
      "TPUDriver_writeActivations_j dev activations i (j + 1) (addr + 2) s1
         = (Inr (addr + 2 + 2 * of_nat (MATRIX_SIZE - (j + 1))), s')"
      "tx s' = tx s1 @ concat (map (\<lambda>k.
            [[if addr + 2 + 2 * of_nat k < 128 then CMD_WRITE_WEIGHT else CMD_WRITE_ACTIVATION,
              addr + 2 + 2 * of_nat k, ucast (float_to_fp16 (activations i (j + 1 + k)) AND 0xFF)],
             [if addr + 2 + 2 * of_nat k + 1 < 128 then CMD_WRITE_WEIGHT else CMD_WRITE_ACTIVATION,
              addr + 2 + 2 * of_nat k + 1,
              ucast (drop_bit 8 (float_to_fp16 (activations i (j + 1 + k))) AND 0xFF)]])
          [0..<MATRIX_SIZE - (j + 1)])"
      using "1.IH"[OF lt f(1)[symmetric] refl wr rd ev2 le2] by blast
    have n: "MATRIX_SIZE - j = Suc (MATRIX_SIZE - (j + 1))" using lt by simp
    have a: "addr + 2 + 2 * of_nat (MATRIX_SIZE - (j + 1)) = addr + 2 * of_nat (MATRIX_SIZE - j)"
      unfolding n by simp
    have r: "TPUDriver_writeActivations_j dev activations i j addr s
        = (Inr (addr + 2 * of_nat (MATRIX_SIZE - j)), s')"
      using lt f(1) ih(1) a by (subst TPUDriver_writeActivations_j.simps) simp
    have t: "tx s' = tx s @ concat (map (\<lambda>k.
            [[if addr + 2 * of_nat k < 128 then CMD_WRITE_WEIGHT else CMD_WRITE_ACTIVATION,
              addr + 2 * of_nat k, ucast (float_to_fp16 (activations i (j + k)) AND 0xFF)],
             [if addr + 2 * of_nat k + 1 < 128 then CMD_WRITE_WEIGHT else CMD_WRITE_ACTIVATION,
              addr + 2 * of_nat k + 1,
              ucast (drop_bit 8 (float_to_fp16 (activations i (j + k))) AND 0xFF)]])
          [0..<MATRIX_SIZE - j])"
      unfolding n concat_map_upt_Suc ih(2) f(2) by (simp add: algebra_simps)
    show ?thesis using r t by blast
  qed
qed

lemma TPUDriver_writeActivations_i_ok:
  "\<forall>k. wr_ret dev k 3 = 3 \<Longrightarrow> \<forall>k. rd_ret dev k = (1, 0x4B) \<Longrightarrow> even addr \<Longrightarrow> i \<le> MATRIX_SIZE \<Longrightarrow>
    \<exists>s'. TPUDriver_writeActivations_i dev activations i addr s = (Inr (), s')
      \<and> tx s' = tx s @ concat (map (\<lambda>k.
            [[if addr + 2 * of_nat k < 128 then CMD_WRITE_WEIGHT else CMD_WRITE_ACTIVATION,
              addr + 2 * of_nat k,
              ucast (float_to_fp16 (activations (i + k div MATRIX_SIZE) (k mod MATRIX_SIZE)) AND 0xFF)],
             [if addr + 2 * of_nat k + 1 < 128 then CMD_WRITE_WEIGHT else CMD_WRITE_ACTIVATION,
              addr + 2 * of_nat k + 1,
              ucast (drop_bit 8 (float_to_fp16 (activations (i + k div MATRIX_SIZE) (k mod MATRIX_SIZE)))
                       AND 0xFF)]])
          [0..<MATRIX_SIZE * (MATRIX_SIZE - i)])"
proof (induction dev activations i addr s rule: TPUDriver_writeActivations_i.induct)
  case (1 dev activations i addr s)
  note wr = "1.prems"(1) and rd = "1.prems"(2) and ev = "1.prems"(3) and le = "1.prems"(4)
  show ?case
  proof (cases "i < MATRIX_SIZE")
    case False
    then have "i = MATRIX_SIZE" using le by simp
    then show ?thesis by (simp add: TPUDriver_writeActivations_i.simps)
  next
    case True
    note lt = True
    let ?F = "\<lambda>(a :: byte) (k :: nat) (v :: float).
            [[if a + 2 * of_nat k < 128 then CMD_WRITE_WEIGHT else CMD_WRITE_ACTIVATION,
              a + 2 * of_nat k, ucast (float_to_fp16 v AND 0xFF) :: byte],
             [if a + 2 * of_nat k + 1 < 128 then CMD_WRITE_WEIGHT else CMD_WRITE_ACTIVATION,
              a + 2 * of_nat k + 1, ucast (drop_bit 8 (float_to_fp16 v) AND 0xFF)]]"
    obtain s1 where row:
      "TPUDriver_writeActivations_j dev activations i 0 addr s
         = (Inr (addr + 2 * of_nat (MATRIX_SIZE - 0)), s1)"
      "tx s1 = tx s @ concat (map (\<lambda>k. ?F addr k (activations i (0 + k))) [0..<MATRIX_SIZE - 0])"
      using TPUDriver_writeActivations_j_ok[OF wr rd ev, where j = 0 and i = i
          and activations = activations and s = s]
      by auto
    have row1: "TPUDriver_writeActivations_j dev activations i 0 addr s = (Inr (addr + 16), s1)"
      using row(1) by simp
    have ev2: "even (addr + 16)" using ev by simp
    have le2: "i + 1 \<le> MATRIX_SIZE" using lt by simp
    obtain s' where ih:
      "TPUDriver_writeActivations_i dev activations (i + 1) (addr + 16) s1 = (Inr (), s')"
      "tx s' = tx s1 @ concat (map (\<lambda>k. ?F (addr + 16) k
            (activations (i + 1 + k div MATRIX_SIZE) (k mod MATRIX_SIZE)))
          [0..<MATRIX_SIZE * (MATRIX_SIZE - (i + 1))])"
      using "1.IH"[OF lt row1[symmetric] refl wr rd ev2 le2] by auto
    have n: "MATRIX_SIZE * (MATRIX_SIZE - i) = MATRIX_SIZE + MATRIX_SIZE * (MATRIX_SIZE - (i + 1))"
      using lt by simp
    have r: "TPUDriver_writeActivations_i dev activations i addr s = (Inr (), s')"
      using lt row1 ih(1) by (subst TPUDriver_writeActivations_i.simps) simp
    have first: "map (\<lambda>k. ?F addr k (activations (i + k div MATRIX_SIZE) (k mod MATRIX_SIZE)))
          [0..<MATRIX_SIZE]
        = map (\<lambda>k. ?F addr k (activations i (0 + k))) [0..<MATRIX_SIZE]"
      by (rule map_cong) simp_all
    have rest: "(\<lambda>k. ?F addr (k + MATRIX_SIZE)
              (activations (i + (k + MATRIX_SIZE) div MATRIX_SIZE) ((k + MATRIX_SIZE) mod MATRIX_SIZE)))
        = (\<lambda>k. ?F (addr + 16) k (activations (i + 1 + k div MATRIX_SIZE) (k mod MATRIX_SIZE)))"
    proof (rule ext)
      fix k :: nat
      have d: "(k + MATRIX_SIZE) div MATRIX_SIZE = 1 + k div MATRIX_SIZE"
        "(k + MATRIX_SIZE) mod MATRIX_SIZE = k mod MATRIX_SIZE" by simp_all
      have a: "addr + 2 * of_nat (k + MATRIX_SIZE) = addr + 16 + 2 * of_nat k" by simp
      show "?F addr (k + MATRIX_SIZE)
              (activations (i + (k + MATRIX_SIZE) div MATRIX_SIZE) ((k + MATRIX_SIZE) mod MATRIX_SIZE))
        = ?F (addr + 16) k (activations (i + 1 + k div MATRIX_SIZE) (k mod MATRIX_SIZE))"
        unfolding d a by (simp only: add.assoc)
    qed
    have t: "tx s' = tx s @ concat (map (\<lambda>k. ?F addr k
            (activations (i + k div MATRIX_SIZE) (k mod MATRIX_SIZE)))
          [0..<MATRIX_SIZE * (MATRIX_SIZE - i)])"
      unfolding n concat_map_upt_add first rest ih(2) row(2) by simp
    show ?thesis using r t by blast
  qed
qed

lemma activation_addr_ge:
  assumes "k < 64"
  shows "\<not> (128 :: byte) + 2 * of_nat k < 128" and "\<not> (128 :: byte) + 2 * of_nat k + 1 < 128"
proof -
  have 1: "unat ((128 :: byte) + of_nat (2 * k)) = unat (128 :: byte) + 2 * k"
    by (rule byte_add_no_wrap) (use assms in simp)
  have 2: "unat ((128 :: byte) + of_nat (2 * k + 1)) = unat (128 :: byte) + (2 * k + 1)"
    by (rule byte_add_no_wrap) (use assms in simp)
  show "\<not> (128 :: byte) + 2 * of_nat k < 128"
    using 1 by (simp add: word_less_nat_alt)
  have "(128 :: byte) + 2 * of_nat k + 1 = 128 + of_nat (2 * k + 1)" by simp
  then show "\<not> (128 :: byte) + 2 * of_nat k + 1 < 128"
    using 2 by (simp add: word_less_nat_alt)
qed

lemma activation_frames_cmd:
  "map (\<lambda>k.
       [[if ACTIVATION_BASE + 2 * of_nat k < 128 then CMD_WRITE_WEIGHT else CMD_WRITE_ACTIVATION,
         ACTIVATION_BASE + 2 * of_nat k, lo k],
        [if ACTIVATION_BASE + 2 * of_nat k + 1 < 128 then CMD_WRITE_WEIGHT else CMD_WRITE_ACTIVATION,
         ACTIVATION_BASE + 2 * of_nat k + 1, hi k]]) [0..<64]
   = map (\<lambda>k. [[CMD_WRITE_ACTIVATION, ACTIVATION_BASE + 2 * of_nat k, lo k],
                [CMD_WRITE_ACTIVATION, ACTIVATION_BASE + 2 * of_nat k + 1, hi k]]) [0..<64]"
proof (rule map_cong)
  fix k assume "k \<in> set [0..<64]"
  then have "k < 64" by simp
  then show "[[if ACTIVATION_BASE + 2 * of_nat k < 128 then CMD_WRITE_WEIGHT else CMD_WRITE_ACTIVATION,
         ACTIVATION_BASE + 2 * of_nat k, lo k],
        [if ACTIVATION_BASE + 2 * of_nat k + 1 < 128 then CMD_WRITE_WEIGHT else CMD_WRITE_ACTIVATION,
         ACTIVATION_BASE + 2 * of_nat k + 1, hi k]]
     = [[CMD_WRITE_ACTIVATION, ACTIVATION_BASE + 2 * of_nat k, lo k],
        [CMD_WRITE_ACTIVATION, ACTIVATION_BASE + 2 * of_nat k + 1, hi k]]"
    using activation_addr_ge[of k] by simp
qed simp

lemma tpu_write_activations_exact:
  assumes wr: "\<forall>k. wr_ret dev k 3 = 3" and rd: "\<forall>k. rd_ret dev k = (1, 0x4B)"
  shows "fst (tpu_write_activations dev activations s) = 0
       \<and> tx (snd (tpu_write_activations dev activations s))
           = tx s @ concat (map (\<lambda>k.
               [[CMD_WRITE_ACTIVATION, ACTIVATION_BASE + 2 * of_nat k,
                 ucast (float_to_fp16 (activations (k div MATRIX_SIZE) (k mod MATRIX_SIZE)) AND 0xFF)],
                [CMD_WRITE_ACTIVATION, ACTIVATION_BASE + 2 * of_nat k + 1,
                 ucast (drop_bit 8 (float_to_fp16 (activations (k div MATRIX_SIZE) (k mod MATRIX_SIZE)))
                          AND 0xFF)]]) [0..<64])"
proof -
  have ev: "even (ACTIVATION_BASE :: byte)" by simp
  obtain s' where r: "tpu_write_activations_i dev activations 0 ACTIVATION_BASE s = (0, s')"
    "tx s' = tx s @ concat (map (\<lambda>k.
            [[if ACTIVATION_BASE + 2 * of_nat k < 128 then CMD_WRITE_WEIGHT else CMD_WRITE_ACTIVATION,
              ACTIVATION_BASE + 2 * of_nat k,
              ucast (float_to_fp16 (activations (0 + k div MATRIX_SIZE) (k mod MATRIX_SIZE)) AND 0xFF)],
             [if ACTIVATION_BASE + 2 * of_nat k + 1 < 128 then CMD_WRITE_WEIGHT else CMD_WRITE_ACTIVATION,
              ACTIVATION_BASE + 2 * of_nat k + 1,
              ucast (drop_bit 8 (float_to_fp16 (activations (0 + k div MATRIX_SIZE) (k mod MATRIX_SIZE)))
                       AND 0xFF)]])
          [0..<MATRIX_SIZE * (MATRIX_SIZE - 0)])"
    using tpu_write_activations_i_ok[OF wr rd ev, where i = 0 and activations = activations and s = s]
    by auto
  have "tx s' = tx s @ concat (map (\<lambda>k.
               [[CMD_WRITE_ACTIVATION, ACTIVATION_BASE + 2 * of_nat k,
                 ucast (float_to_fp16 (activations (k div MATRIX_SIZE) (k mod MATRIX_SIZE)) AND 0xFF)],
                [CMD_WRITE_ACTIVATION, ACTIVATION_BASE + 2 * of_nat k + 1,
                 ucast (drop_bit 8 (float_to_fp16 (activations (k div MATRIX_SIZE) (k mod MATRIX_SIZE)))
                          AND 0xFF)]]) [0..<64])"
    using r(2) arg_cong[OF activation_frames_cmd[of
        "\<lambda>k. ucast (float_to_fp16 (activations (k div MATRIX_SIZE) (k mod MATRIX_SIZE)) AND 0xFF)"
        "\<lambda>k. ucast (drop_bit 8 (float_to_fp16 (activations (k div MATRIX_SIZE) (k mod MATRIX_SIZE)))
                          AND 0xFF)"], of concat]
    by (simp del: map_eq_conv)
  then show ?thesis unfolding tpu_write_activations_def r(1) by simp
qed

lemma TPUDriver_writeActivations_exact:
  assumes wr: "\<forall>k. wr_ret dev k 3 = 3" and rd: "\<forall>k. rd_ret dev k = (1, 0x4B)"
  shows "fst (TPUDriver_writeActivations dev activations s) = Inr ()
       \<and> tx (snd (TPUDriver_writeActivations dev activations s))
           = tx s @ concat (map (\<lambda>k.
               [[CMD_WRITE_ACTIVATION, ACTIVATION_BASE + 2 * of_nat k,
                 ucast (float_to_fp16 (activations (k div MATRIX_SIZE) (k mod MATRIX_SIZE)) AND 0xFF)],
                [CMD_WRITE_ACTIVATION, ACTIVATION_BASE + 2 * of_nat k + 1,
                 ucast (drop_bit 8 (float_to_fp16 (activations (k div MATRIX_SIZE) (k mod MATRIX_SIZE)))
                          AND 0xFF)]]) [0..<64])"
proof -
  have ev: "even (ACTIVATION_BASE :: byte)" by simp
  obtain s' where r: "TPUDriver_writeActivations_i dev activations 0 ACTIVATION_BASE s = (Inr (), s')"
    "tx s' = tx s @ concat (map (\<lambda>k.
            [[if ACTIVATION_BASE + 2 * of_nat k < 128 then CMD_WRITE_WEIGHT else CMD_WRITE_ACTIVATION,
              ACTIVATION_BASE + 2 * of_nat k,
              ucast (float_to_fp16 (activations (0 + k div MATRIX_SIZE) (k mod MATRIX_SIZE)) AND 0xFF)],
             [if ACTIVATION_BASE + 2 * of_nat k + 1 < 128 then CMD_WRITE_WEIGHT else CMD_WRITE_ACTIVATION,
              ACTIVATION_BASE + 2 * of_nat k + 1,
              ucast (drop_bit 8 (float_to_fp16 (activations (0 + k div MATRIX_SIZE) (k mod MATRIX_SIZE)))
                       AND 0xFF)]])
          [0..<MATRIX_SIZE * (MATRIX_SIZE - 0)])"
    using TPUDriver_writeActivations_i_ok[OF wr rd ev, where i = 0 and activations = activations
        and s = s]
    by auto
  have "tx s' = tx s @ concat (map (\<lambda>k.
               [[CMD_WRITE_ACTIVATION, ACTIVATION_BASE + 2 * of_nat k,
                 ucast (float_to_fp16 (activations (k div MATRIX_SIZE) (k mod MATRIX_SIZE)) AND 0xFF)],
                [CMD_WRITE_ACTIVATION, ACTIVATION_BASE + 2 * of_nat k + 1,
                 ucast (drop_bit 8 (float_to_fp16 (activations (k div MATRIX_SIZE) (k mod MATRIX_SIZE)))
                          AND 0xFF)]]) [0..<64])"
    using r(2) arg_cong[OF activation_frames_cmd[of
        "\<lambda>k. ucast (float_to_fp16 (activations (k div MATRIX_SIZE) (k mod MATRIX_SIZE)) AND 0xFF)"
        "\<lambda>k. ucast (drop_bit 8 (float_to_fp16 (activations (k div MATRIX_SIZE) (k mod MATRIX_SIZE)))
                          AND 0xFF)"], of concat]
    by (simp del: map_eq_conv)
  then show ?thesis unfolding TPUDriver_writeActivations_def r(1) by simp
qed


text \<open>
  Claim C2, as amended. Whatever the device answers, every frame handed to the serial
  line during an activation-matrix write is a WriteActivation frame \<^verbatim>\<open>{'A', addr, data}\<close>
  whose address is at least 128, that is in \<open>[128, 256)\<close>. When every frame is
  acknowledged the write succeeds with 128 frames: element number \<open>k = 8 i + j\<close> is
  sent low byte first at \<open>128 + 2 k\<close> and \<open>128 + 2 k + 1\<close>. So rows 0 to 3 use the
  addresses 128 to 191 and rows 4 to 7 the addresses 192 to 255.
\<close>

theorem write_activations_frames:
  "(let sent = drop (length (tx s)) (tx (snd (tpu_write_activations dev activations s)));
        sent_cpp = drop (length (tx s)) (tx (snd (TPUDriver_writeActivations dev activations s)));
        full = concat (map (\<lambda>k.
               [[CMD_WRITE_ACTIVATION, ACTIVATION_BASE + 2 * of_nat k,
                 ucast (float_to_fp16 (activations (k div MATRIX_SIZE) (k mod MATRIX_SIZE)) AND 0xFF)],
                [CMD_WRITE_ACTIVATION, ACTIVATION_BASE + 2 * of_nat k + 1,
                 ucast (drop_bit 8 (float_to_fp16 (activations (k div MATRIX_SIZE) (k mod MATRIX_SIZE)))
                          AND 0xFF)]]) [0..<64])
    in (\<forall>f\<in>set sent. \<exists>a d. f = [CMD_WRITE_ACTIVATION, a, d] \<and> 128 \<le> a)
     \<and> (\<forall>f\<in>set sent_cpp. \<exists>a d. f = [CMD_WRITE_ACTIVATION, a, d] \<and> 128 \<le> a)
     \<and> ((\<forall>k. wr_ret dev k 3 = 3) \<and> (\<forall>k. rd_ret dev k = (1, 0x4B)) \<longrightarrow>
            fst (tpu_write_activations dev activations s) = 0 \<and> sent = full
          \<and> fst (TPUDriver_writeActivations dev activations s) = Inr () \<and> sent_cpp = full))"
proof -
  obtain fs where c: "tx (snd (tpu_write_activations dev activations s)) = tx s @ fs"
    "\<forall>f\<in>set fs. \<exists>a d. f = [CMD_WRITE_ACTIVATION, a, d] \<and> 128 \<le> a"
    using tpu_write_activations_frames[of dev activations s] by blast
  obtain gs where cpp: "tx (snd (TPUDriver_writeActivations dev activations s)) = tx s @ gs"
    "\<forall>f\<in>set gs. \<exists>a d. f = [CMD_WRITE_ACTIVATION, a, d] \<and> 128 \<le> a"
    using TPUDriver_writeActivations_frames[of dev activations s] by blast
  have d1: "drop (length (tx s)) (tx (snd (tpu_write_activations dev activations s))) = fs"
    using c(1) by simp
  have d2: "drop (length (tx s)) (tx (snd (TPUDriver_writeActivations dev activations s))) = gs"
    using cpp(1) by simp
  have ex: "fst (tpu_write_activations dev activations s) = 0
      \<and> fs = concat (map (\<lambda>k.
               [[CMD_WRITE_ACTIVATION, ACTIVATION_BASE + 2 * of_nat k,
                 ucast (float_to_fp16 (activations (k div MATRIX_SIZE) (k mod MATRIX_SIZE)) AND 0xFF)],
                [CMD_WRITE_ACTIVATION, ACTIVATION_BASE + 2 * of_nat k + 1,
                 ucast (drop_bit 8 (float_to_fp16 (activations (k div MATRIX_SIZE) (k mod MATRIX_SIZE)))
                          AND 0xFF)]]) [0..<64])
      \<and> fst (TPUDriver_writeActivations dev activations s) = Inr ()
      \<and> gs = concat (map (\<lambda>k.
               [[CMD_WRITE_ACTIVATION, ACTIVATION_BASE + 2 * of_nat k,
                 ucast (float_to_fp16 (activations (k div MATRIX_SIZE) (k mod MATRIX_SIZE)) AND 0xFF)],
                [CMD_WRITE_ACTIVATION, ACTIVATION_BASE + 2 * of_nat k + 1,
                 ucast (drop_bit 8 (float_to_fp16 (activations (k div MATRIX_SIZE) (k mod MATRIX_SIZE)))
                          AND 0xFF)]]) [0..<64])"
    if "\<forall>k. wr_ret dev k 3 = 3" and "\<forall>k. rd_ret dev k = (1, 0x4B)"
    using tpu_write_activations_exact[OF that, of activations s]
      TPUDriver_writeActivations_exact[OF that, of activations s] c(1) cpp(1)
    by simp
  show ?thesis
    unfolding Let_def d1 d2 using c(2) cpp(2) ex by blast
qed

lemma activation_frames_example:
  "length (concat (map (\<lambda>k.
               [[CMD_WRITE_ACTIVATION, ACTIVATION_BASE + 2 * of_nat k,
                 ucast (float_to_fp16 ((\<lambda>i j. 0x3F800000) (k div MATRIX_SIZE) (k mod MATRIX_SIZE)) AND 0xFF)],
                [CMD_WRITE_ACTIVATION, ACTIVATION_BASE + 2 * of_nat k + 1,
                 ucast (drop_bit 8 (float_to_fp16 ((\<lambda>i j. 0x3F800000) (k div MATRIX_SIZE) (k mod MATRIX_SIZE)))
                          AND 0xFF)]]) [0..<64])) = 128"
  "concat (map (\<lambda>k.
               [[CMD_WRITE_ACTIVATION, ACTIVATION_BASE + 2 * of_nat k,
                 ucast (float_to_fp16 ((\<lambda>i j. 0x3F800000) (k div MATRIX_SIZE) (k mod MATRIX_SIZE)) AND 0xFF)],
                [CMD_WRITE_ACTIVATION, ACTIVATION_BASE + 2 * of_nat k + 1,
                 ucast (drop_bit 8 (float_to_fp16 ((\<lambda>i j. 0x3F800000) (k div MATRIX_SIZE) (k mod MATRIX_SIZE)))
                          AND 0xFF)]]) [0..<64]) ! 63 = [CMD_WRITE_ACTIVATION, 191, 0x3C]"
  "concat (map (\<lambda>k.
               [[CMD_WRITE_ACTIVATION, ACTIVATION_BASE + 2 * of_nat k,
                 ucast (float_to_fp16 ((\<lambda>i j. 0x3F800000) (k div MATRIX_SIZE) (k mod MATRIX_SIZE)) AND 0xFF)],
                [CMD_WRITE_ACTIVATION, ACTIVATION_BASE + 2 * of_nat k + 1,
                 ucast (drop_bit 8 (float_to_fp16 ((\<lambda>i j. 0x3F800000) (k div MATRIX_SIZE) (k mod MATRIX_SIZE)))
                          AND 0xFF)]]) [0..<64]) ! 64 = [CMD_WRITE_ACTIVATION, 192, 0x00]"
  "concat (map (\<lambda>k.
               [[CMD_WRITE_ACTIVATION, ACTIVATION_BASE + 2 * of_nat k,
                 ucast (float_to_fp16 ((\<lambda>i j. 0x3F800000) (k div MATRIX_SIZE) (k mod MATRIX_SIZE)) AND 0xFF)],
                [CMD_WRITE_ACTIVATION, ACTIVATION_BASE + 2 * of_nat k + 1,
                 ucast (drop_bit 8 (float_to_fp16 ((\<lambda>i j. 0x3F800000) (k div MATRIX_SIZE) (k mod MATRIX_SIZE)))
                          AND 0xFF)]]) [0..<64]) ! 127 = [CMD_WRITE_ACTIVATION, 255, 0x3C]"
  by code_simp+

lemma responder_ack: "\<forall>k. wr_ret (responder 0x4B) k 3 = 3" "\<forall>k. rd_ret (responder 0x4B) k = (1, 0x4B)"
  by (simp_all add: responder_def)

theorem write_activations_frames_witness:
  "fst (tpu_write_activations (responder 0x4B) (\<lambda>i j. 0x3F800000) port0) = 0
   \<and> length (tx (snd (tpu_write_activations (responder 0x4B) (\<lambda>i j. 0x3F800000) port0))) = 128
   \<and> tx (snd (tpu_write_activations (responder 0x4B) (\<lambda>i j. 0x3F800000) port0)) ! 63
       = [CMD_WRITE_ACTIVATION, 191, 0x3C]
   \<and> tx (snd (TPUDriver_writeActivations (responder 0x4B) (\<lambda>i j. 0x3F800000) port0)) ! 127
       = [CMD_WRITE_ACTIVATION, 255, 0x3C]"
proof -
  have t0: "tx port0 = []" by (simp add: port0_def)
  show ?thesis
    using write_activations_frames[of port0 "responder 0x4B" "\<lambda>i j. 0x3F800000"]
      responder_ack activation_frames_example
    unfolding Let_def t0 by simp
qed

text \<open>
  Claim C2 as it was stated fails from row 4 on. The matrix is 128 bytes and starts at
  128, so its second half lies at 192 and above, and \<^verbatim>\<open>tpu_write_byte\<close> sends
  \<^verbatim>\<open>'A'\<close> for every address from 128 up: frame 64, the low byte of element
  \<open>(4, 0)\<close>, carries the address 192, and the last frame the address 255.
\<close>

theorem write_activations_frames_counterexample:
  "fst (tpu_write_activations (responder 0x4B) (\<lambda>i j. 0x3F800000) port0) = 0
   \<and> tx (snd (tpu_write_activations (responder 0x4B) (\<lambda>i j. 0x3F800000) port0)) ! 64
       = [CMD_WRITE_ACTIVATION, 192, 0x00]
   \<and> tx (snd (tpu_write_activations (responder 0x4B) (\<lambda>i j. 0x3F800000) port0)) ! 127
       = [CMD_WRITE_ACTIVATION, 255, 0x3C]
   \<and> tx (snd (TPUDriver_writeActivations (responder 0x4B) (\<lambda>i j. 0x3F800000) port0)) ! 64
       = [CMD_WRITE_ACTIVATION, 192, 0x00]"
proof -
  have t0: "tx port0 = []" by (simp add: port0_def)
  show ?thesis
    using tpu_write_activations_exact[OF responder_ack, of "\<lambda>i j. 0x3F800000" port0]
      TPUDriver_writeActivations_exact[OF responder_ack, of "\<lambda>i j. 0x3F800000" port0]
      activation_frames_example
    unfolding t0 by simp
qed

section \<open>The timeout of the poll loop\<close>

text \<open>
  Claim C3 fails on the C driver. Take a device that never reports done (its status
  byte is always \<open>0x00\<close>) and answers every exchange, each serial call taking 100
  microseconds of which 50 on the processor, and a timeout of 1 millisecond. The claim
  allows the loop 1 ms plus one poll interval of 10 ms. \<^verbatim>\<open>tpu_wait_until_done\<close>
  compares the timeout with \<^verbatim>\<open>clock()\<close>, the processor time used, and the 10 ms it
  sleeps between polls use none: it gives up after 20 polls, when 2000 microseconds of
  processor time and 194000 microseconds of elapsed time have passed. On the same input
  the C++ \<^verbatim>\<open>waitUntilDone\<close>, which reads the steady clock, throws at its second poll,
  10400 microseconds after it started.
\<close>

theorem wait_until_done_measures_cpu_time:
  "map_option (\<lambda>(r, s). (r, n_rd s, cpu_us s, wall_us s))
      (tpu_wait_until_done (responder 0x00) 1 port0)
     = Some (- 1, 20, 2000, 194000)
   \<and> map_option (\<lambda>(r, s). (r, n_rd s, cpu_us s, wall_us s))
      (TPUDriver_waitUntilDone (responder 0x00) 1 port0)
     = Some (Inl (runtime_error ''Timeout waiting for TPU''), 2, 200, 10400)"
  by code_simp

lemma sdiv_nonneg: "0 \<le> a \<Longrightarrow> 0 < b \<Longrightarrow> (a :: int) sdiv b = a div b"
  by (cases "a = 0") (simp_all add: signed_divide_int_def sgn_if)

lemma div_1000_gt_iff: "(t < (x :: int) div 1000) = (1000 * (t + 1) \<le> x)"
proof -
  define q where "q = x div 1000"
  define r where "r = x mod 1000"
  have eq: "1000 * q + r = x" unfolding q_def r_def by simp
  have r: "0 \<le> r" "r < 1000" unfolding r_def by simp_all
  have "(t < q) = (1000 * (t + 1) \<le> 1000 * q + r)"
    using r by auto
  then have "(t < q) = (1000 * (t + 1) \<le> x)" by (simp only: eq)
  then show ?thesis by (simp only: q_def)
qed

lemma clock_ticks_to_ms: "0 \<le> a \<Longrightarrow> (a * 1000) sdiv CLOCKS_PER_SEC = (a :: int) div 1000"
proof -
  assume a: "0 \<le> a"
  then have "(a * 1000) sdiv 1000000 = (a * 1000) div (1000 * 1000)"
    by (simp add: sdiv_nonneg)
  also have "\<dots> = a div 1000"
    by (simp only: mult.commute[of a 1000] div_mult_mult1[of 1000 a 1000])
  finally show ?thesis .
qed

lemma tpu_get_status_not_done:
  assumes "wr_ret dev (length (tx s)) 1 = 1" and "rd_ret dev (n_rd s) = (1, b)"
    and "b AND STATUS_DONE = 0"
  shows "\<exists>st s1. tpu_get_status dev s = (Some st, s1) \<and> status_done st = 0
           \<and> n_rd s1 = n_rd s + 1
           \<and> wall_us s1 = wall_us s + 2 * call_wall_us dev
           \<and> cpu_us s1 = cpu_us s + 2 * call_cpu_us dev"
  using assms by (simp add: tpu_get_status_def serial_write_def serial_read_def)

lemma TPUDriver_getStatus_not_done:
  assumes "0 \<le> wr_ret dev (length (tx s)) 1" and "rd_ret dev (n_rd s) = (1, b)"
    and "b AND STATUS_DONE = 0"
  shows "\<exists>st s1. TPUDriver_getStatus dev s = (Inr st, s1) \<and> \<not> cpp_done st
           \<and> n_rd s1 = n_rd s + 1
           \<and> wall_us s1 = wall_us s + 2 * call_wall_us dev
           \<and> cpu_us s1 = cpu_us s + 2 * call_cpu_us dev"
  using assms
  by (simp add: TPUDriver_getStatus_def SerialPort_write_def SerialPort_read_def
      serial_write_def serial_read_def)

text \<open>
  The C++ loop on a device that never reports done: it throws the timeout, and it does
  so less than one sleep and one status exchange after the elapsed time passed
  \<open>timeout_ms + 1\<close> milliseconds (or at its first poll).
\<close>

lemma TPUDriver_waitUntilDone_loop_times_out:
  assumes nd: "\<forall>k. \<exists>b. rd_ret dev k = (1, b) \<and> b AND STATUS_DONE = 0"
    and wr: "\<forall>k. 0 \<le> wr_ret dev k 1"
    and c: "0 \<le> call_wall_us dev"
  shows "start \<le> wall_us s \<Longrightarrow>
    \<exists>s'. TPUDriver_waitUntilDone_loop dev timeout_ms start s
            = Some (Inl (runtime_error ''Timeout waiting for TPU''), s')
        \<and> (wall_us s' = wall_us s + 2 * call_wall_us dev
           \<or> wall_us s' < start + 1000 * (timeout_ms + 1) + 10000 + 2 * call_wall_us dev)"
proof (induction "nat (start + 1000 * (timeout_ms + 1) - wall_us s)" arbitrary: s rule: less_induct)
  case less
  obtain b where b: "rd_ret dev (n_rd s) = (1, b)" "b AND STATUS_DONE = 0" using nd by blast
  obtain st s1 where g: "TPUDriver_getStatus dev s = (Inr st, s1)" "\<not> cpp_done st"
    "wall_us s1 = wall_us s + 2 * call_wall_us dev"
    using TPUDriver_getStatus_not_done[OF wr[rule_format] b] by blast
  have el: "0 \<le> wall_us s1 - start" using less.prems g(3) c by simp
  have sd: "(steady_clock_now s1 - start) sdiv 1000 = (wall_us s1 - start) div 1000"
    using el by (simp add: steady_clock_now_def sdiv_nonneg)
  show ?case
  proof (cases "(wall_us s1 - start) div 1000 > timeout_ms")
    case True
    have "TPUDriver_waitUntilDone_loop dev timeout_ms start s
        = Some (Inl (runtime_error ''Timeout waiting for TPU''), s1)"
      using g True sd by (subst TPUDriver_waitUntilDone_loop.simps) (simp add: Let_def)
    then show ?thesis using g(3) by simp
  next
    case False
    then have lt: "wall_us s1 - start < 1000 * (timeout_ms + 1)"
      by (simp add: div_1000_gt_iff)
    let ?s2 = "sleep_for_milliseconds 10 s1"
    have w2: "wall_us ?s2 = wall_us s1 + 10000" by (simp add: sleep_for_milliseconds_def)
    have u: "TPUDriver_waitUntilDone_loop dev timeout_ms start s
        = TPUDriver_waitUntilDone_loop dev timeout_ms start ?s2"
      using g False sd by (subst TPUDriver_waitUntilDone_loop.simps) (simp add: Let_def)
    have m: "nat (start + 1000 * (timeout_ms + 1) - wall_us ?s2)
        < nat (start + 1000 * (timeout_ms + 1) - wall_us s)"
      using w2 g(3) c lt by linarith
    have p: "start \<le> wall_us ?s2" using w2 el by linarith
    obtain s' where r: "TPUDriver_waitUntilDone_loop dev timeout_ms start ?s2
            = Some (Inl (runtime_error ''Timeout waiting for TPU''), s')"
        "wall_us s' = wall_us ?s2 + 2 * call_wall_us dev
           \<or> wall_us s' < start + 1000 * (timeout_ms + 1) + 10000 + 2 * call_wall_us dev"
      using less.hyps[OF m p] by blast
    have "wall_us s' < start + 1000 * (timeout_ms + 1) + 10000 + 2 * call_wall_us dev"
      using r(2) w2 lt by linarith
    then show ?thesis using r(1) u by simp
  qed
qed

text \<open>
  The C loop on a device that never reports done, when a serial call uses processor
  time: after some number \<open>n\<close> of polls it returns \<^verbatim>\<open>-1\<close>. By then the processor
  time has passed the timeout, and the elapsed time has grown by \<open>n\<close> status exchanges
  and \<open>n - 1\<close> sleeps of 10 ms, whatever the timeout was.
\<close>

lemma tpu_wait_until_done_loop_times_out:
  assumes nd: "\<forall>k. \<exists>b. rd_ret dev k = (1, b) \<and> b AND STATUS_DONE = 0"
    and wr: "\<forall>k. wr_ret dev k 1 = 1"
    and c: "0 < call_cpu_us dev"
  shows "start \<le> cpu_us s \<Longrightarrow>
    \<exists>s' n. tpu_wait_until_done_loop dev timeout_ms start s = Some (- 1, s')
        \<and> 0 < n
        \<and> cpu_us s' = cpu_us s + n * (2 * call_cpu_us dev)
        \<and> wall_us s' = wall_us s + n * (2 * call_wall_us dev) + (n - 1) * 10000
        \<and> 1000 * (timeout_ms + 1) \<le> cpu_us s' - start"
proof (induction "nat (start + 1000 * (timeout_ms + 1) - cpu_us s)" arbitrary: s rule: less_induct)
  case less
  obtain b where b: "rd_ret dev (n_rd s) = (1, b)" "b AND STATUS_DONE = 0" using nd by blast
  obtain st s1 where g: "tpu_get_status dev s = (Some st, s1)" "status_done st = 0"
    "wall_us s1 = wall_us s + 2 * call_wall_us dev"
    "cpu_us s1 = cpu_us s + 2 * call_cpu_us dev"
    using tpu_get_status_not_done[OF wr[rule_format] b] by blast
  have el: "0 \<le> cpu_us s1 - start" using less.prems g(4) c by simp
  have sd: "((clock s1 - start) * 1000) sdiv CLOCKS_PER_SEC = (cpu_us s1 - start) div 1000"
    unfolding clock_def using el by (rule clock_ticks_to_ms)
  show ?case
  proof (cases "(cpu_us s1 - start) div 1000 > timeout_ms")
    case True
    have "tpu_wait_until_done_loop dev timeout_ms start s = Some (- 1, s1)"
      using g True sd by (subst tpu_wait_until_done_loop.simps) (simp add: Let_def)
    moreover have "1000 * (timeout_ms + 1) \<le> cpu_us s1 - start"
      using True by (simp add: div_1000_gt_iff)
    ultimately show ?thesis
      using g(3,4) by (intro exI[of _ s1] exI[of _ "1 :: int"]) simp
  next
    case False
    then have lt: "cpu_us s1 - start < 1000 * (timeout_ms + 1)"
      by (simp add: div_1000_gt_iff)
    let ?s2 = "usleep 10000 s1"
    have w2: "wall_us ?s2 = wall_us s1 + 10000" "cpu_us ?s2 = cpu_us s1"
      by (simp_all add: usleep_def)
    have u: "tpu_wait_until_done_loop dev timeout_ms start s
        = tpu_wait_until_done_loop dev timeout_ms start ?s2"
      using g False sd by (subst tpu_wait_until_done_loop.simps) (simp add: Let_def)
    have m: "nat (start + 1000 * (timeout_ms + 1) - cpu_us ?s2)
        < nat (start + 1000 * (timeout_ms + 1) - cpu_us s)"
      using w2 g(4) c lt by linarith
    have p: "start \<le> cpu_us ?s2" using w2 el by linarith
    obtain s' n where r: "tpu_wait_until_done_loop dev timeout_ms start ?s2 = Some (- 1, s')"
        "0 < n"
        "cpu_us s' = cpu_us ?s2 + n * (2 * call_cpu_us dev)"
        "wall_us s' = wall_us ?s2 + n * (2 * call_wall_us dev) + (n - 1) * 10000"
        "1000 * (timeout_ms + 1) \<le> cpu_us s' - start"
      using less.hyps[OF m p] by blast
    have "cpu_us s' = cpu_us s + (n + 1) * (2 * call_cpu_us dev)"
      using r(3) w2 g(4) by (simp add: algebra_simps)
    moreover have "wall_us s' = wall_us s + (n + 1) * (2 * call_wall_us dev) + (n + 1 - 1) * 10000"
      using r(4) w2 g(3) by (simp add: algebra_simps)
    moreover have "0 < n + 1" using r(2) by simp
    ultimately show ?thesis using r(1,5) u by (intro exI[of _ s'] exI[of _ "n + 1"]) simp
  qed
qed


text \<open>
  From the entry points: for a timeout that is not negative, \<^verbatim>\<open>waitUntilDone\<close> throws
  within \<open>timeout_ms + 1\<close> ms, one sleep and one status exchange of elapsed time;
  \<^verbatim>\<open>tpu_wait_until_done\<close> returns after \<open>n\<close> polls, where \<open>n\<close> is large enough for
  the processor time of \<open>n\<close> status exchanges to pass the timeout, and has by then
  slept \<open>n - 1\<close> times.
\<close>

lemma TPUDriver_waitUntilDone_times_out:
  assumes nd: "\<forall>k. \<exists>b. rd_ret dev k = (1, b) \<and> b AND STATUS_DONE = 0"
    and wr: "\<forall>k. 0 \<le> wr_ret dev k 1"
    and c: "0 \<le> call_wall_us dev"
    and t: "0 \<le> timeout_ms"
  shows "\<exists>s'. TPUDriver_waitUntilDone dev timeout_ms s
            = Some (Inl (runtime_error ''Timeout waiting for TPU''), s')
        \<and> wall_us s' - wall_us s < 1000 * timeout_ms + 1000 + 10000 + 2 * call_wall_us dev"
proof -
  obtain s' where r: "TPUDriver_waitUntilDone_loop dev timeout_ms (wall_us s) s
            = Some (Inl (runtime_error ''Timeout waiting for TPU''), s')"
      "wall_us s' = wall_us s + 2 * call_wall_us dev
           \<or> wall_us s' < wall_us s + 1000 * (timeout_ms + 1) + 10000 + 2 * call_wall_us dev"
    using TPUDriver_waitUntilDone_loop_times_out[OF nd wr c, of "wall_us s" s timeout_ms] by auto
  have "wall_us s' - wall_us s < 1000 * timeout_ms + 1000 + 10000 + 2 * call_wall_us dev"
    using r(2) t by auto
  then show ?thesis
    using r(1) by (simp add: TPUDriver_waitUntilDone_def steady_clock_now_def)
qed

lemma tpu_wait_until_done_times_out:
  assumes nd: "\<forall>k. \<exists>b. rd_ret dev k = (1, b) \<and> b AND STATUS_DONE = 0"
    and wr: "\<forall>k. wr_ret dev k 1 = 1"
    and c: "0 < call_cpu_us dev"
  shows "\<exists>s' n. tpu_wait_until_done dev timeout_ms s = Some (- 1, s')
        \<and> 0 < n
        \<and> 1000 * (timeout_ms + 1) \<le> n * (2 * call_cpu_us dev)
        \<and> wall_us s' - wall_us s = n * (2 * call_wall_us dev) + (n - 1) * 10000"
proof -
  obtain s' n where r: "tpu_wait_until_done_loop dev timeout_ms (cpu_us s) s = Some (- 1, s')"
      "0 < n"
      "cpu_us s' = cpu_us s + n * (2 * call_cpu_us dev)"
      "wall_us s' = wall_us s + n * (2 * call_wall_us dev) + (n - 1) * 10000"
      "1000 * (timeout_ms + 1) \<le> cpu_us s' - cpu_us s"
    using tpu_wait_until_done_loop_times_out[OF nd wr c, of "cpu_us s" s timeout_ms] by auto
  have "1000 * (timeout_ms + 1) \<le> n * (2 * call_cpu_us dev)" using r(3,5) by simp
  moreover have "wall_us s' - wall_us s = n * (2 * call_wall_us dev) + (n - 1) * 10000"
    using r(4) by simp
  ultimately show ?thesis
    using r(1,2) by (auto simp add: tpu_wait_until_done_def clock_def)
qed

end
